theory Spec2Isabelle
  imports Main
begin

section \<open>Pyramid (Match-13) Solitaire: the game engine of pyramid.py\<close>

text \<open>
  A shallow embedding of the classes \<open>Card\<close>, \<open>Deck\<close>, \<open>Pyramid\<close>, \<open>Move\<close> and
  \<open>GameState\<close>. Python lists keep their order (the top of a pile is the last element),
  mutation is explicit state passing, and every exception the code can raise is a value:
  a function that can raise returns \<open>error + result\<close>, with \<open>Inl\<close> the exception.
\<close>

subsection \<open>Python list indexing\<close>

datatype error = IndexError | AssertionError

text \<open>
  \<open>xs[i]\<close> for a Python int \<open>i\<close>: a negative index counts from the end, anything outside
  \<open>-len(xs) .. len(xs) - 1\<close> raises IndexError. \<open>py_index\<close> is the position that is read.
\<close>

definition py_index :: "'a list \<Rightarrow> int \<Rightarrow> nat option" where
  "py_index xs i =
     (if 0 \<le> i \<and> i < int (length xs) then Some (nat i)
      else if i < 0 \<and> - int (length xs) \<le> i then Some (nat (int (length xs) + i))
      else None)"

definition getitem :: "'a list \<Rightarrow> int \<Rightarrow> error + 'a" where
  "getitem xs i = (case py_index xs i of None \<Rightarrow> Inl IndexError | Some k \<Rightarrow> Inr (xs ! k))"

definition setitem :: "'a list \<Rightarrow> int \<Rightarrow> 'a \<Rightarrow> error + 'a list" where
  "setitem xs i v = (case py_index xs i of None \<Rightarrow> Inl IndexError | Some k \<Rightarrow> Inr (xs[k := v]))"

text \<open>\<open>g[r][c]\<close> and \<open>g[r][c] = v\<close> on a list of lists.\<close>

definition getitem2 :: "'a list list \<Rightarrow> int \<Rightarrow> int \<Rightarrow> error + 'a" where
  "getitem2 g r c = (case getitem g r of Inl e \<Rightarrow> Inl e | Inr row \<Rightarrow> getitem row c)"

definition setitem2 :: "'a list list \<Rightarrow> int \<Rightarrow> int \<Rightarrow> 'a \<Rightarrow> error + 'a list list" where
  "setitem2 g r c v =
     (case getitem g r of
        Inl e \<Rightarrow> Inl e
      | Inr row \<Rightarrow> (case setitem row c v of Inl e \<Rightarrow> Inl e | Inr row' \<Rightarrow> setitem g r row'))"

subsection \<open>Card\<close>

text \<open>
  \<open>RANKS\<close>, \<open>SUITS\<close> and \<open>VALUES\<close>. A \<open>Card\<close> is only ever built by \<open>Deck\<close> from a rank
  of \<open>RANKS\<close> and a suit of \<open>SUITS\<close>, so the two strings are enumerations here and the
  lookup \<open>VALUES[rank]\<close> is total.
\<close>

datatype rank = RA | R2 | R3 | R4 | R5 | R6 | R7 | R8 | R9 | R10 | RJ | RQ | RK

datatype suit = SC | SD | SH | SS

datatype card = Card rank suit

definition RANKS :: "rank list" where
  "RANKS = [RA, R2, R3, R4, R5, R6, R7, R8, R9, R10, RJ, RQ, RK]"

definition SUITS :: "suit list" where
  "SUITS = [SC, SD, SH, SS]"

fun VALUES :: "rank \<Rightarrow> int" where
  "VALUES RA = 1" | "VALUES R2 = 2" | "VALUES R3 = 3" | "VALUES R4 = 4"
| "VALUES R5 = 5" | "VALUES R6 = 6" | "VALUES R7 = 7" | "VALUES R8 = 8"
| "VALUES R9 = 9" | "VALUES R10 = 10" | "VALUES RJ = 11" | "VALUES RQ = 12"
| "VALUES RK = 13"

fun card_value :: "card \<Rightarrow> int" where
  "card_value (Card r s) = VALUES r"

subsection \<open>Deck\<close>

text \<open>
  \<open>Deck(seed)\<close> builds the 52 cards suit by suit and shuffles them with a private
  \<open>random.Random(seed)\<close>. The generator is library code: the model takes its effect as a
  parameter \<open>shuffle\<close>, where \<open>shuffle n xs\<close> is the order \<open>random.Random(n).shuffle\<close> leaves
  the list \<open>xs\<close> in. With \<open>seed = None\<close> the generator seeds itself from the operating
  system; \<open>entropy\<close> is the number it gets there.
\<close>

type_synonym shuffler = "int \<Rightarrow> card list \<Rightarrow> card list"

definition ordered_cards :: "card list" where
  "ordered_cards = concat (map (\<lambda>s. map (\<lambda>r. Card r s) RANKS) SUITS)"

definition Deck :: "shuffler \<Rightarrow> int \<Rightarrow> int option \<Rightarrow> card list" where
  "Deck shuffle entropy seed0 =
     shuffle (case seed0 of Some n \<Rightarrow> n | None \<Rightarrow> entropy) ordered_cards"

text \<open>\<open>deal\<close> is \<open>self.cards.pop()\<close>: the last card, IndexError on an empty list.\<close>

definition deal :: "card list \<Rightarrow> error + (card \<times> card list)" where
  "deal cards = (if cards = [] then Inl IndexError else Inr (last cards, butlast cards))"

text \<open>\<open>[deck.deal() for _ in range(n)]\<close>: the cards dealt, in order, and the cards left.\<close>

fun deal_many :: "nat \<Rightarrow> card list \<Rightarrow> error + (card list \<times> card list)" where
  "deal_many 0 cards = Inr ([], cards)"
| "deal_many (Suc n) cards =
     (case deal cards of
        Inl e \<Rightarrow> Inl e
      | Inr (c, cards') \<Rightarrow>
          (case deal_many n cards' of
             Inl e \<Rightarrow> Inl e
           | Inr (cs, rest) \<Rightarrow> Inr (c # cs, rest)))"

subsection \<open>Pyramid\<close>

record Pyramid =
  rows :: "card option list list"
  removed :: "bool list list"

text \<open>
  The constructor fills rows of lengths \<open>range(1, 8)\<close> from an iterator over the cards,
  \<open>next(iterator, None)\<close> giving \<open>None\<close> once the cards run out.
\<close>

fun fill_rows :: "nat list \<Rightarrow> card list \<Rightarrow> card option list list" where
  "fill_rows [] cards = []"
| "fill_rows (n # ns) cards =
     (map Some (take n cards) @ replicate (n - length cards) None) # fill_rows ns (drop n cards)"

definition Pyramid_init :: "card list \<Rightarrow> Pyramid" where
  "Pyramid_init cards =
     (let rs = fill_rows [1..<8] cards
      in \<lparr>rows = rs, removed = map (map (\<lambda>_. False)) rs\<rparr>)"

definition card_at :: "Pyramid \<Rightarrow> int \<Rightarrow> int \<Rightarrow> error + card option" where
  "card_at p row col = getitem2 (rows p) row col"

definition remove_card :: "Pyramid \<Rightarrow> int \<Rightarrow> int \<Rightarrow> error + (card option \<times> Pyramid)" where
  "remove_card p row col =
     (case getitem2 (rows p) row col of
        Inl e \<Rightarrow> Inl e
      | Inr None \<Rightarrow> Inr (None, p)
      | Inr (Some c) \<Rightarrow>
          (case setitem2 (rows p) row col None of
             Inl e \<Rightarrow> Inl e
           | Inr rows' \<Rightarrow>
               (case setitem2 (removed p) row col True of
                  Inl e \<Rightarrow> Inl e
                | Inr removed' \<Rightarrow> Inr (Some c, \<lparr>rows = rows', removed = removed'\<rparr>))))"

definition restore_card :: "Pyramid \<Rightarrow> int \<Rightarrow> int \<Rightarrow> card \<Rightarrow> error + Pyramid" where
  "restore_card p row col c =
     (case setitem2 (rows p) row col (Some c) of
        Inl e \<Rightarrow> Inl e
      | Inr rows' \<Rightarrow>
          (case setitem2 (removed p) row col False of
             Inl e \<Rightarrow> Inl e
           | Inr removed' \<Rightarrow> Inr \<lparr>rows = rows', removed = removed'\<rparr>))"

text \<open>
  \<open>is_exposed\<close>: Python's \<open>and\<close> does not read the second cell below when the first one
  holds a card.
\<close>

definition is_exposed :: "Pyramid \<Rightarrow> int \<Rightarrow> int \<Rightarrow> error + bool" where
  "is_exposed p row col =
     (case getitem2 (rows p) row col of
        Inl e \<Rightarrow> Inl e
      | Inr None \<Rightarrow> Inr False
      | Inr (Some c) \<Rightarrow>
          if row = int (length (rows p)) - 1 then Inr True
          else (case getitem2 (rows p) (row + 1) col of
                  Inl e \<Rightarrow> Inl e
                | Inr (Some d) \<Rightarrow> Inr False
                | Inr None \<Rightarrow>
                    (case getitem2 (rows p) (row + 1) (col + 1) of
                       Inl e \<Rightarrow> Inl e
                     | Inr x \<Rightarrow> Inr (x = None))))"

text \<open>\<open>all_cards\<close>: every cell with its row and column, row by row.\<close>

definition all_cards :: "Pyramid \<Rightarrow> (int \<times> int \<times> card option) list" where
  "all_cards p =
     concat (map (\<lambda>(r, row). map (\<lambda>(c, x). (int r, int c, x)) (enumerate 0 row))
                 (enumerate 0 (rows p)))"

subsection \<open>Move and GameState\<close>

text \<open>
  A \<open>Move\<close> is a type string with a payload dictionary; the engine builds five kinds,
  each with the payload its undo reads. A location is the tuple \<open>(loc_type, a, b)\<close>.
\<close>

type_synonym location = "string \<times> int \<times> int"

datatype move =
    Draw card
  | RemoveKingPyramid int int card
  | RemoveKingWaste card
  | RemovePair "(string \<times> int \<times> int \<times> card) list"
  | Redeal "card list" "card list"

record GameState =
  seed :: "int option"
  max_redeals :: int
  history :: "move list"
  pyramid :: Pyramid
  stock :: "card list"
  waste :: "card list"
  removed_count :: int
  redeals_used :: int

definition reset :: "shuffler \<Rightarrow> int \<Rightarrow> GameState \<Rightarrow> error + GameState" where
  "reset shuffle entropy s =
     (case deal_many 28 (Deck shuffle entropy (seed s)) of
        Inl e \<Rightarrow> Inl e
      | Inr (pyramid_cards, cards) \<Rightarrow>
          Inr (s\<lparr>pyramid := Pyramid_init pyramid_cards, stock := cards, waste := [],
                 removed_count := 0, redeals_used := 0, history := []\<rparr>))"

text \<open>
  The constructor stores the seed, the redeal limit and an empty history, and calls
  \<open>reset\<close>, which sets every other attribute.
\<close>

definition GameState_init :: "shuffler \<Rightarrow> int \<Rightarrow> int option \<Rightarrow> int \<Rightarrow> error + GameState" where
  "GameState_init shuffle entropy seed0 max0 =
     reset shuffle entropy
       \<lparr>seed = seed0, max_redeals = max0, history = [],
        pyramid = \<lparr>rows = [], removed = []\<rparr>, stock = [], waste = [],
        removed_count = 0, redeals_used = 0\<rparr>"

definition card_exposed :: "GameState \<Rightarrow> location \<Rightarrow> error + bool" where
  "card_exposed s location =
     (case location of (loc_type, a, b) \<Rightarrow>
        if loc_type = ''pyramid'' then is_exposed (pyramid s) a b
        else if loc_type = ''waste'' then Inr (waste s \<noteq> [] \<and> a = int (length (waste s)) - 1)
        else Inr False)"

definition remove_pyramid_card :: "GameState \<Rightarrow> int \<Rightarrow> int \<Rightarrow> error + (card option \<times> GameState)" where
  "remove_pyramid_card s row col =
     (case remove_card (pyramid s) row col of
        Inl e \<Rightarrow> Inl e
      | Inr (None, p') \<Rightarrow> Inr (None, s\<lparr>pyramid := p'\<rparr>)
      | Inr (Some c, p') \<Rightarrow>
          Inr (Some c, s\<lparr>pyramid := p', removed_count := removed_count s + 1\<rparr>))"

definition restore_pyramid_card :: "GameState \<Rightarrow> int \<Rightarrow> int \<Rightarrow> card \<Rightarrow> error + GameState" where
  "restore_pyramid_card s row col c =
     (case restore_card (pyramid s) row col c of
        Inl e \<Rightarrow> Inl e
      | Inr p' \<Rightarrow> Inr (s\<lparr>pyramid := p', removed_count := removed_count s - 1\<rparr>))"

definition draw :: "GameState \<Rightarrow> bool \<times> GameState" where
  "draw s =
     (if stock s = [] then (False, s)
      else (True, s\<lparr>stock := butlast (stock s),
                     waste := waste s @ [last (stock s)],
                     history := history s @ [Draw (last (stock s))]\<rparr>))"

definition undo_draw :: "GameState \<Rightarrow> card \<Rightarrow> error + GameState" where
  "undo_draw s c =
     (if waste s \<noteq> [] \<and> last (waste s) = c
      then Inr (s\<lparr>waste := butlast (waste s), stock := stock s @ [c]\<rparr>)
      else Inl AssertionError)"

definition remove_king :: "GameState \<Rightarrow> location \<Rightarrow> error + (bool \<times> GameState)" where
  "remove_king s location =
     (case location of (loc_type, a, b) \<Rightarrow>
        if loc_type = ''pyramid'' then
          (case card_at (pyramid s) a b of
             Inl e \<Rightarrow> Inl e
           | Inr None \<Rightarrow> Inr (False, s)
           | Inr (Some c) \<Rightarrow>
               if card_value c = 13 then
                 (case is_exposed (pyramid s) a b of
                    Inl e \<Rightarrow> Inl e
                  | Inr False \<Rightarrow> Inr (False, s)
                  | Inr True \<Rightarrow>
                      (case remove_pyramid_card s a b of
                         Inl e \<Rightarrow> Inl e
                       | Inr (x, s') \<Rightarrow>
                           Inr (True, s'\<lparr>history := history s' @ [RemoveKingPyramid a b c]\<rparr>)))
               else Inr (False, s))
        else if loc_type = ''waste'' \<and> waste s \<noteq> [] then
          (if card_value (last (waste s)) = 13
           then Inr (True, s\<lparr>waste := butlast (waste s),
                              history := history s @ [RemoveKingWaste (last (waste s))]\<rparr>)
           else Inr (False, s))
        else Inr (False, s))"

definition get_card :: "GameState \<Rightarrow> location \<Rightarrow> error + card option" where
  "get_card s location =
     (case location of (loc_type, a, b) \<Rightarrow>
        if loc_type = ''pyramid'' then card_at (pyramid s) a b
        else if loc_type = ''waste'' then
          (if waste s \<noteq> [] \<and> a = int (length (waste s)) - 1
           then Inr (Some (last (waste s))) else Inr None)
        else Inr None)"

text \<open>
  \<open>remove_pair\<close> removes the two cards in a loop over \<open>(first, second)\<close>, collecting
  \<open>removed_cards\<close>; \<open>remove_step\<close> is one pass of that loop. The roll-back loop of
  \<open>remove_pair\<close> and the \<open>remove_pair\<close> branch of \<open>undo\<close> have the same body
  (\<open>restore_step\<close>) and walk \<open>reversed(...)\<close> of the list they are given.
\<close>

definition remove_step ::
  "GameState \<times> (string \<times> int \<times> int \<times> card) list \<Rightarrow> location \<Rightarrow>
   error + (GameState \<times> (string \<times> int \<times> int \<times> card) list)" where
  "remove_step st location =
     (case st of (s, removed_cards) \<Rightarrow>
      case location of (loc_type, a, b) \<Rightarrow>
        if loc_type = ''pyramid'' then
          (case remove_pyramid_card s a b of
             Inl e \<Rightarrow> Inl e
           | Inr (None, s') \<Rightarrow> Inr (s', removed_cards)
           | Inr (Some c, s') \<Rightarrow> Inr (s', removed_cards @ [(loc_type, a, b, c)]))
        else if loc_type = ''waste'' \<and> waste s \<noteq> [] then
          Inr (s\<lparr>waste := butlast (waste s)\<rparr>,
               removed_cards @ [(loc_type, a, b, last (waste s))])
        else Inr (s, removed_cards))"

definition restore_step :: "GameState \<Rightarrow> string \<times> int \<times> int \<times> card \<Rightarrow> error + GameState" where
  "restore_step s entry =
     (case entry of (loc_type, a, b, c) \<Rightarrow>
        if loc_type = ''pyramid'' then restore_pyramid_card s a b c
        else if loc_type = ''waste'' then Inr (s\<lparr>waste := waste s @ [c]\<rparr>)
        else Inr s)"

fun restore_all :: "GameState \<Rightarrow> (string \<times> int \<times> int \<times> card) list \<Rightarrow> error + GameState" where
  "restore_all s [] = Inr s"
| "restore_all s (entry # entries) =
     (case restore_step s entry of Inl e \<Rightarrow> Inl e | Inr s' \<Rightarrow> restore_all s' entries)"

definition remove_pair :: "GameState \<Rightarrow> location \<Rightarrow> location \<Rightarrow> error + (bool \<times> GameState)" where
  "remove_pair s first second =
     (if first = second then Inr (False, s)
      else
        (case get_card s first of
           Inl e \<Rightarrow> Inl e
         | Inr card_a \<Rightarrow>
        (case get_card s second of
           Inl e \<Rightarrow> Inl e
         | Inr card_b \<Rightarrow>
        (case (card_a, card_b) of
           (Some ca, Some cb) \<Rightarrow>
             if card_value ca + card_value cb \<noteq> 13 then Inr (False, s)
             else
               (case card_exposed s first of
                  Inl e \<Rightarrow> Inl e
                | Inr False \<Rightarrow> Inr (False, s)
                | Inr True \<Rightarrow>
               (case card_exposed s second of
                  Inl e \<Rightarrow> Inl e
                | Inr False \<Rightarrow> Inr (False, s)
                | Inr True \<Rightarrow>
               (case remove_step (s, []) first of
                  Inl e \<Rightarrow> Inl e
                | Inr st1 \<Rightarrow>
               (case remove_step st1 second of
                  Inl e \<Rightarrow> Inl e
                | Inr (s2, removed_cards) \<Rightarrow>
                    if length removed_cards \<noteq> 2 then
                      (case restore_all s2 (rev removed_cards) of
                         Inl e \<Rightarrow> Inl e
                       | Inr s3 \<Rightarrow> Inr (False, s3))
                    else Inr (True, s2\<lparr>history := history s2 @ [RemovePair removed_cards]\<rparr>)))))
         | _ \<Rightarrow> Inr (False, s)))))"

text \<open>\<open>undo_move\<close> is the dispatch of \<open>undo\<close> on the move it has popped.\<close>

definition undo_move :: "GameState \<Rightarrow> move \<Rightarrow> error + GameState" where
  "undo_move s m =
     (case m of
        Draw c \<Rightarrow> undo_draw s c
      | RemoveKingPyramid row col c \<Rightarrow> restore_pyramid_card s row col c
      | RemoveKingWaste c \<Rightarrow> Inr (s\<lparr>waste := waste s @ [c]\<rparr>)
      | RemovePair cards \<Rightarrow> restore_all s (rev cards)
      | Redeal stock_before waste_before \<Rightarrow>
          Inr (s\<lparr>stock := stock_before, waste := waste_before,
                 redeals_used := redeals_used s - 1\<rparr>))"

definition undo :: "GameState \<Rightarrow> error + (bool \<times> GameState)" where
  "undo s =
     (if history s = [] then Inr (False, s)
      else (case undo_move (s\<lparr>history := butlast (history s)\<rparr>) (last (history s)) of
              Inl e \<Rightarrow> Inl e
            | Inr s' \<Rightarrow> Inr (True, s')))"

definition redeal :: "GameState \<Rightarrow> bool \<times> GameState" where
  "redeal s =
     (if redeals_used s \<ge> max_redeals s then (False, s)
      else if waste s = [] then (False, s)
      else (True, s\<lparr>stock := stock s @ rev (waste s), waste := [],
                     redeals_used := redeals_used s + 1,
                     history := history s @ [Redeal (stock s) (waste s)]\<rparr>))"

definition has_won :: "GameState \<Rightarrow> bool" where
  "has_won s = (removed_count s \<ge> 28)"

text \<open>
  \<open>legal_moves_remaining\<close>. \<open>scan_exposed\<close> is its loop over \<open>all_cards()\<close>: \<open>None\<close> when
  the loop returned True at an exposed King, else the values collected in
  \<open>exposed_cards\<close>. \<open>pair_sums_13\<close> is the double loop over \<open>i < j\<close>.
\<close>

fun scan_exposed ::
  "Pyramid \<Rightarrow> (int \<times> int \<times> card option) list \<Rightarrow> int list \<Rightarrow> error + int list option" where
  "scan_exposed p [] exposed_cards = Inr (Some exposed_cards)"
| "scan_exposed p ((r, c, None) # cells) exposed_cards = scan_exposed p cells exposed_cards"
| "scan_exposed p ((r, c, Some x) # cells) exposed_cards =
     (case is_exposed p r c of
        Inl e \<Rightarrow> Inl e
      | Inr False \<Rightarrow> scan_exposed p cells exposed_cards
      | Inr True \<Rightarrow>
          if card_value x = 13 then Inr None
          else scan_exposed p cells (exposed_cards @ [card_value x]))"

fun pair_sums_13 :: "int list \<Rightarrow> bool" where
  "pair_sums_13 [] = False"
| "pair_sums_13 (v # vs) = (list_ex (\<lambda>w. v + w = 13) vs \<or> pair_sums_13 vs)"

definition legal_moves_remaining :: "GameState \<Rightarrow> error + bool" where
  "legal_moves_remaining s =
     (if stock s \<noteq> [] \<or> (waste s \<noteq> [] \<and> redeals_used s < max_redeals s) then Inr True
      else
        case scan_exposed (pyramid s) (all_cards (pyramid s)) [] of
          Inl e \<Rightarrow> Inl e
        | Inr None \<Rightarrow> Inr True
        | Inr (Some exposed_cards) \<Rightarrow>
            if waste s \<noteq> [] then
              (if card_value (last (waste s)) = 13 then Inr True
               else Inr (pair_sums_13 (exposed_cards @ [card_value (last (waste s))])))
            else Inr (pair_sums_13 exposed_cards))"

subsection \<open>Reachable states\<close>

text \<open>
  The states a caller can get to: a constructed game, and whatever the public operations
  return from there. A call that raises returns nothing and gives no new state.
\<close>

inductive reachable :: "shuffler \<Rightarrow> GameState \<Rightarrow> bool" for shuffle :: shuffler where
  r_init: "GameState_init shuffle entropy seed0 max0 = Inr s \<Longrightarrow> reachable shuffle s"
| r_draw: "reachable shuffle s \<Longrightarrow> draw s = (b, s') \<Longrightarrow> reachable shuffle s'"
| r_remove_king:
    "reachable shuffle s \<Longrightarrow> remove_king s location = Inr (b, s') \<Longrightarrow> reachable shuffle s'"
| r_remove_pair:
    "reachable shuffle s \<Longrightarrow> remove_pair s first second = Inr (b, s') \<Longrightarrow> reachable shuffle s'"
| r_redeal: "reachable shuffle s \<Longrightarrow> redeal s = (b, s') \<Longrightarrow> reachable shuffle s'"
| r_undo: "reachable shuffle s \<Longrightarrow> undo s = Inr (b, s') \<Longrightarrow> reachable shuffle s'"
| r_reset: "reachable shuffle s \<Longrightarrow> reset shuffle entropy s = Inr s' \<Longrightarrow> reachable shuffle s'"

subsection \<open>Predicates on states\<close>

text \<open>
  The cell a pair of Python indices reads in a list of lists, the shape of the board
  (rows of 1 to 7 cells), the \<open>removed\<close> flags agreeing with the cells, and the counts
  of empty and occupied cells.
\<close>

definition cell_of :: "'a list list \<Rightarrow> int \<Rightarrow> int \<Rightarrow> (nat \<times> nat) option" where
  "cell_of g r c =
     (case py_index g r of
        None \<Rightarrow> None
      | Some i \<Rightarrow> (case py_index (g ! i) c of None \<Rightarrow> None | Some j \<Rightarrow> Some (i, j)))"

definition shape_ok :: "Pyramid \<Rightarrow> bool" where
  "shape_ok p = (map length (rows p) = [1, 2, 3, 4, 5, 6, 7])"

definition flags_ok :: "Pyramid \<Rightarrow> bool" where
  "flags_ok p = (removed p = map (map (\<lambda>x. x = None)) (rows p))"

definition empty_cells :: "Pyramid \<Rightarrow> nat" where
  "empty_cells p = sum_list (map (\<lambda>row. length (filter (\<lambda>x. x = None) row)) (rows p))"

definition occupied_cells :: "Pyramid \<Rightarrow> nat" where
  "occupied_cells p = sum_list (map (\<lambda>row. length (filter (\<lambda>x. x \<noteq> None) row)) (rows p))"

definition consistent :: "GameState \<Rightarrow> bool" where
  "consistent s =
     (shape_ok (pyramid s) \<and> flags_ok (pyramid s) \<and>
      removed_count s = int (empty_cells (pyramid s)))"

text \<open>
  The cards that left the game through the waste, as the history records them: one for
  each \<open>remove_king_waste\<close> move and one for each waste entry of a \<open>remove_pair\<close> move.
\<close>

fun waste_removals :: "move \<Rightarrow> nat" where
  "waste_removals (RemoveKingWaste c) = 1"
| "waste_removals (RemovePair cards) = length (filter (\<lambda>entry. fst entry = ''waste'') cards)"
| "waste_removals m = 0"

definition waste_removed :: "GameState \<Rightarrow> nat" where
  "waste_removed s = sum_list (map waste_removals (history s))"

definition accounted :: "GameState \<Rightarrow> bool" where
  "accounted s =
     (consistent s \<and> length (stock s) + length (waste s) + waste_removed s = 24)"

text \<open>
  \<open>unwinds P n s\<close>: \<open>P\<close> holds of \<open>s\<close> and of the \<open>n\<close> states that \<open>n\<close> calls of \<open>undo\<close>
  go through, each of them returning True.
\<close>

fun unwinds :: "(GameState \<Rightarrow> bool) \<Rightarrow> nat \<Rightarrow> GameState \<Rightarrow> bool" where
  "unwinds P 0 s = P s"
| "unwinds P (Suc n) s =
     (P s \<and> (case undo s of Inr (True, s') \<Rightarrow> unwinds P n s' | _ \<Rightarrow> False))"

subsection \<open>The exposure rule and the legal-move condition as the specification words them\<close>

text \<open>
  A cell is exposed iff it holds a card and it is in the last row or both cells directly
  below it are empty. The playable slots are the exposed cells and, when there is one,
  the top of the waste.
\<close>

definition exposed_rule :: "Pyramid \<Rightarrow> nat \<Rightarrow> nat \<Rightarrow> bool" where
  "exposed_rule p r c =
     (rows p ! r ! c \<noteq> None \<and>
      (r = 6 \<or> (rows p ! (r + 1) ! c = None \<and> rows p ! (r + 1) ! (c + 1) = None)))"

datatype slot = Cell nat nat | WasteTop

definition exposed_slots :: "GameState \<Rightarrow> slot list" where
  "exposed_slots s =
     concat (map (\<lambda>r. map (Cell r) (filter (exposed_rule (pyramid s) r) [0..<Suc r])) [0..<7])
     @ (if waste s = [] then [] else [WasteTop])"

fun slot_value :: "GameState \<Rightarrow> slot \<Rightarrow> int" where
  "slot_value s (Cell r c) = card_value (the (rows (pyramid s) ! r ! c))"
| "slot_value s WasteTop = card_value (last (waste s))"

definition legal_moves_spec :: "GameState \<Rightarrow> bool" where
  "legal_moves_spec s =
     (stock s \<noteq> [] \<or>
      (waste s \<noteq> [] \<and> redeals_used s < max_redeals s) \<or>
      (\<exists>r \<in> {0..<7}. \<exists>c \<in> {0..r}.
          exposed_rule (pyramid s) r c \<and> card_value (the (rows (pyramid s) ! r ! c)) = 13) \<or>
      (waste s \<noteq> [] \<and> card_value (last (waste s)) = 13) \<or>
      (\<exists>x \<in> set (exposed_slots s). \<exists>y \<in> set (exposed_slots s).
          x \<noteq> y \<and> slot_value s x + slot_value s y = 13))"

subsection \<open>Two recorded shuffles\<close>

text \<open>
  For evaluating the engine on real games: the orders in which CPython's
  \<open>random.Random(1).shuffle\<close> and \<open>random.Random(2).shuffle\<close> leave the 52 cards of
  \<open>ordered_cards\<close>. \<open>sample_shuffle\<close> is the parameter \<open>shuffle\<close> at these two seeds; no
  other seed is evaluated below, and there it leaves the list as it is. \<open>game2\<close> is the
  game that \<open>GameState(seed=2, max_redeals=1)\<close> constructs: the first card drawn is the
  King of clubs, and the base row shows an Ace and a Queen.
\<close>

definition seed1_cards :: "card list" where
  "seed1_cards =
     [Card RJ SS, Card R10 SC, Card RQ SH, Card R10 SD, Card R3 SC, Card RK SH,
      Card R7 SD, Card RQ SC, Card R10 SH, Card R6 SC, Card R4 SH, Card RK SS,
      Card R5 SS, Card R3 SD, Card RJ SD, Card R8 SS, Card R9 SS, Card R9 SD,
      Card R2 SS, Card RA SS, Card RK SC, Card RQ SS, Card R7 SH, Card R8 SD,
      Card RK SD, Card RA SH, Card R9 SH, Card RJ SC, Card R8 SH, Card R4 SC,
      Card R6 SD, Card R2 SD, Card R5 SD, Card R6 SS, Card RA SC, Card R2 SH,
      Card R4 SS, Card R2 SC, Card R7 SS, Card R7 SC, Card RA SD, Card RQ SD,
      Card R3 SS, Card R5 SH, Card R3 SH, Card R6 SH, Card R8 SC, Card R4 SD,
      Card R5 SC, Card R10 SS, Card RJ SH, Card R9 SC]"

definition seed2_cards :: "card list" where
  "seed2_cards =
     [Card R3 SD, Card R4 SH, Card R10 SC, Card R9 SD, Card R5 SC, Card R7 SC,
      Card RK SS, Card RA SH, Card R10 SD, Card RQ SD, Card R9 SC, Card R9 SH,
      Card RJ SH, Card R6 SD, Card R2 SS, Card R5 SH, Card R7 SS, Card R8 SC,
      Card R8 SD, Card R6 SH, Card RJ SS, Card R6 SS, Card R8 SS, Card RK SC,
      Card R3 SS, Card R2 SD, Card RQ SC, Card RA SC, Card RA SS, Card R2 SC,
      Card R8 SH, Card R5 SD, Card R10 SH, Card R3 SH, Card R10 SS, Card R7 SH,
      Card RK SD, Card R2 SH, Card R9 SS, Card RQ SH, Card R3 SC, Card R5 SS,
      Card RA SD, Card RK SH, Card R4 SD, Card R7 SD, Card R4 SS, Card RJ SC,
      Card RJ SD, Card RQ SS, Card R6 SC, Card R4 SC]"

definition game2 :: GameState where
  "game2 =
     \<lparr>seed = Some 2, max_redeals = 1, history = [],
      pyramid = \<lparr>rows = [
          [Some (Card R4 SC)],
          [Some (Card R6 SC), Some (Card RQ SS)],
          [Some (Card RJ SD), Some (Card RJ SC), Some (Card R4 SS)],
          [Some (Card R7 SD), Some (Card R4 SD), Some (Card RK SH), Some (Card RA SD)],
          [Some (Card R5 SS), Some (Card R3 SC), Some (Card RQ SH), Some (Card R9 SS), Some (Card R2 SH)],
          [Some (Card RK SD), Some (Card R7 SH), Some (Card R10 SS), Some (Card R3 SH), Some (Card R10 SH), Some (Card R5 SD)],
          [Some (Card R8 SH), Some (Card R2 SC), Some (Card RA SS), Some (Card RA SC), Some (Card RQ SC), Some (Card R2 SD), Some (Card R3 SS)]],
        removed = [
          [False],
          [False, False],
          [False, False, False],
          [False, False, False, False],
          [False, False, False, False, False],
          [False, False, False, False, False, False],
          [False, False, False, False, False, False, False]]\<rparr>,
      stock = [
        Card R3 SD, Card R4 SH, Card R10 SC, Card R9 SD, Card R5 SC, Card R7 SC,
        Card RK SS, Card RA SH, Card R10 SD, Card RQ SD, Card R9 SC, Card R9 SH,
        Card RJ SH, Card R6 SD, Card R2 SS, Card R5 SH, Card R7 SS, Card R8 SC,
        Card R8 SD, Card R6 SH, Card RJ SS, Card R6 SS, Card R8 SS, Card RK SC],
      waste = [], removed_count = 0, redeals_used = 0\<rparr>"

definition sample_shuffle :: shuffler where
  "sample_shuffle n xs = (if n = 1 then seed1_cards else if n = 2 then seed2_cards else xs)"

text \<open>
  \<open>game2\<close> after one \<open>draw()\<close>, which puts the King of clubs on the waste; after a second
  \<open>draw()\<close>, which puts the 8 of spades on it; and after the one \<open>draw()\<close> and a
  \<open>remove_king\<close> that takes the King from the waste.
\<close>

definition game2_drawn :: GameState where
  "game2_drawn =
     game2\<lparr>stock := butlast (stock game2), waste := [Card RK SC],
           history := [Draw (Card RK SC)]\<rparr>"

definition game2_drawn_twice :: GameState where
  "game2_drawn_twice =
     game2\<lparr>stock := butlast (butlast (stock game2)), waste := [Card RK SC, Card R8 SS],
           history := [Draw (Card RK SC), Draw (Card R8 SS)]\<rparr>"

definition game2_king_gone :: GameState where
  "game2_king_gone =
     game2\<lparr>stock := butlast (stock game2),
           history := [Draw (Card RK SC), RemoveKingWaste (Card RK SC)]\<rparr>"

section \<open>Lemmas on indexing\<close>

lemma py_index_bound: "py_index xs i = Some k \<Longrightarrow> k < length xs"
  by (auto simp: py_index_def split: if_splits)

lemma py_index_length: "length ys = length xs \<Longrightarrow> py_index ys i = py_index xs i"
  by (simp add: py_index_def)

lemma getitem2_cell:
  "getitem2 g r c = (case cell_of g r c of None \<Rightarrow> Inl IndexError | Some (i, j) \<Rightarrow> Inr (g ! i ! j))"
  by (simp add: getitem2_def getitem_def cell_of_def split: option.splits)

lemma setitem2_cell:
  "setitem2 g r c v =
     (case cell_of g r c of None \<Rightarrow> Inl IndexError | Some (i, j) \<Rightarrow> Inr (g[i := (g ! i)[j := v]]))"
  by (auto simp: setitem2_def getitem_def setitem_def cell_of_def split: option.splits)

lemma cell_of_bound: "cell_of g r c = Some (i, j) \<Longrightarrow> i < length g \<and> j < length (g ! i)"
  by (auto simp: cell_of_def split: option.splits dest: py_index_bound)

lemma cell_of_shape:
  assumes "map length g' = map length g"
  shows "cell_of g' r c = cell_of g r c"
proof -
  have len: "length g' = length g"
    using assms by (metis length_map)
  have row: "length (g' ! i) = length (g ! i)" if "i < length g" for i
    using assms that len by (metis nth_map)
  show ?thesis
    unfolding cell_of_def py_index_length [OF len]
    by (auto split: option.splits dest: py_index_bound simp: py_index_length [OF row])
qed

lemma shape_update:
  "i < length g \<Longrightarrow> map length (g[i := (g ! i)[j := v]]) = map length g"
  by (simp add: map_update list_update_same_conv)

lemma cell_of_update [simp]:
  "i < length g \<Longrightarrow> cell_of (g[i := (g ! i)[j := v]]) r c = cell_of g r c"
  by (rule cell_of_shape) (rule shape_update)

lemma count_update_None:
  "j < length xs \<Longrightarrow> xs ! j = Some c \<Longrightarrow>
   length (filter (\<lambda>x. x = None) (xs[j := None])) = Suc (length (filter (\<lambda>x. x = None) xs))"
proof (induction xs arbitrary: j)
  case Nil
  then show ?case by simp
next
  case (Cons x xs)
  then show ?case by (cases j) auto
qed

lemma sum_list_map_update:
  fixes h :: "'a \<Rightarrow> nat"
  shows "i < length g \<Longrightarrow> sum_list (map h (g[i := x])) + h (g ! i) = sum_list (map h g) + h x"
proof (induction g arbitrary: i)
  case Nil
  then show ?case by simp
next
  case (Cons y g)
  then show ?case by (cases i) (auto simp: add.assoc add.left_commute)
qed

section \<open>Lemmas on the pyramid\<close>

lemma getitem2_update_other:
  assumes "cell_of g a b = Some (i, j)" and "cell_of g a2 b2 = Some (i2, j2)" and "(i2, j2) \<noteq> (i, j)"
  shows "getitem2 (g[i := (g ! i)[j := v]]) a2 b2 = getitem2 g a2 b2"
proof -
  have bi: "i < length g" and bi2: "i2 < length g"
    using assms cell_of_bound by blast+
  have "g[i := (g ! i)[j := v]] ! i2 ! j2 = g ! i2 ! j2"
    using assms(3) bi bi2 by (cases "i2 = i") auto
  then show ?thesis using bi assms(2) by (simp add: getitem2_cell)
qed

lemma remove_card_None:
  "remove_card p a b = Inr (None, p') \<Longrightarrow> p' = p \<and> card_at p a b = Inr None"
  by (auto simp: remove_card_def card_at_def split: sum.splits option.splits)

lemma remove_card_Some:
  assumes "remove_card p a b = Inr (Some c, p')"
  shows "\<exists>i j i' j'. cell_of (rows p) a b = Some (i, j) \<and> rows p ! i ! j = Some c \<and>
           rows p' = (rows p)[i := (rows p ! i)[j := None]] \<and>
           cell_of (removed p) a b = Some (i', j') \<and>
           removed p' = (removed p)[i' := (removed p ! i')[j' := True]]"
  using assms
  by (auto simp: remove_card_def getitem2_cell setitem2_cell split: sum.splits option.splits)

lemma remove_card_card_at:
  "remove_card p a b = Inr (x, p') \<Longrightarrow> card_at p a b = Inr x"
  by (auto simp: remove_card_def card_at_def split: sum.splits option.splits)

lemma remove_card_shape:
  assumes "remove_card p a b = Inr (x, p')"
  shows "map length (rows p') = map length (rows p)"
proof (cases x)
  case None
  then show ?thesis using assms remove_card_None by blast
next
  case (Some c)
  then obtain i j where "cell_of (rows p) a b = Some (i, j)"
    and "rows p' = (rows p)[i := (rows p ! i)[j := None]]"
    using assms remove_card_Some by blast
  then show ?thesis using cell_of_bound shape_update by metis
qed

lemma remove_card_empty_cells:
  assumes "remove_card p a b = Inr (Some c, p')"
  shows "empty_cells p' = Suc (empty_cells p)"
proof -
  obtain i j where cell: "cell_of (rows p) a b = Some (i, j)" and c: "rows p ! i ! j = Some c"
    and r: "rows p' = (rows p)[i := (rows p ! i)[j := None]]"
    using assms remove_card_Some by blast
  have b: "i < length (rows p)" "j < length (rows p ! i)"
    using cell cell_of_bound by blast+
  show ?thesis
    using sum_list_map_update [OF b(1), of "\<lambda>row. length (filter (\<lambda>x. x = None) row)" "(rows p ! i)[j := None]"]
      count_update_None [OF b(2) c]
    by (simp add: empty_cells_def r)
qed

lemma remove_card_other:
  assumes "remove_card p a b = Inr (Some c, p')" and "card_at p a2 b2 = Inr x" and "x \<noteq> Some c"
  shows "card_at p' a2 b2 = Inr x"
proof -
  obtain i j where cell: "cell_of (rows p) a b = Some (i, j)" and c: "rows p ! i ! j = Some c"
    and r: "rows p' = (rows p)[i := (rows p ! i)[j := None]]"
    using assms(1) remove_card_Some by blast
  obtain i2 j2 where cell2: "cell_of (rows p) a2 b2 = Some (i2, j2)" and x: "rows p ! i2 ! j2 = x"
    using assms(2) by (auto simp: card_at_def getitem2_cell split: option.splits)
  have "(i2, j2) \<noteq> (i, j)" using c x assms(3) by auto
  then show ?thesis
    using getitem2_update_other [OF cell cell2] assms(2) by (simp add: card_at_def r)
qed

lemma flags_ok_shape: "flags_ok p \<Longrightarrow> map length (removed p) = map length (rows p)"
  by (simp add: flags_ok_def comp_def)

lemma remove_card_flags:
  assumes "remove_card p a b = Inr (x, p')" and "flags_ok p"
  shows "flags_ok p'"
proof (cases x)
  case None
  then show ?thesis using assms remove_card_None by blast
next
  case (Some c)
  then obtain i j i' j' where cell: "cell_of (rows p) a b = Some (i, j)"
    and r: "rows p' = (rows p)[i := (rows p ! i)[j := None]]"
    and cell': "cell_of (removed p) a b = Some (i', j')"
    and f: "removed p' = (removed p)[i' := (removed p ! i')[j' := True]]"
    using assms(1) remove_card_Some by blast
  have same: "(i', j') = (i, j)"
    using cell cell' cell_of_shape [OF flags_ok_shape [OF assms(2)], of a b] by simp
  have b: "i < length (rows p)" using cell cell_of_bound by blast
  show ?thesis
    using assms(2) same b by (simp add: flags_ok_def r f map_update)
qed

lemma remove_card_restore:
  assumes "remove_card p a b = Inr (Some c, p')" and "flags_ok p"
  shows "restore_card p' a b c = Inr p"
proof -
  obtain i j i' j' where cell: "cell_of (rows p) a b = Some (i, j)" and c: "rows p ! i ! j = Some c"
    and r: "rows p' = (rows p)[i := (rows p ! i)[j := None]]"
    and cell': "cell_of (removed p) a b = Some (i', j')"
    and f: "removed p' = (removed p)[i' := (removed p ! i')[j' := True]]"
    using assms(1) remove_card_Some by blast
  have same: "i' = i" "j' = j"
    using cell cell' cell_of_shape [OF flags_ok_shape [OF assms(2)], of a b] by simp_all
  have b: "i < length (rows p)" "j < length (rows p ! i)" using cell cell_of_bound by blast+
  have b': "i < length (removed p)" using cell' same cell_of_bound by blast
  have flag: "removed p ! i ! j = False"
    using assms(2) b c by (simp add: flags_ok_def)
  have "(rows p ! i)[j := Some c] = rows p ! i"
    using list_update_id [of "rows p ! i" j] c by simp
  then have rows_back: "(rows p')[i := (rows p' ! i)[j := Some c]] = rows p"
    using b by (simp add: r)
  have "(removed p ! i)[j := False] = removed p ! i"
    using list_update_id [of "removed p ! i" j] flag by simp
  then have flags_back: "(removed p')[i := (removed p' ! i)[j := False]] = removed p"
    using b' same by (simp add: f)
  show ?thesis
    using cell cell' same b b' rows_back flags_back
    by (simp add: restore_card_def setitem2_cell r f)
qed

section \<open>Lemmas on removing and restoring cards\<close>

lemma value_sum_13_distinct:
  assumes "card_value x + card_value y = 13"
  shows "x \<noteq> y"
proof
  assume "x = y"
  with assms have "2 * card_value x = 13" by simp
  then show False by presburger
qed

lemma remove_pyramid_card_None:
  "remove_pyramid_card s a b = Inr (None, s') \<Longrightarrow> s' = s"
  by (auto simp: remove_pyramid_card_def split: sum.splits option.splits dest!: remove_card_None)

lemma remove_pyramid_card_Some:
  "remove_pyramid_card s a b = Inr (Some c, s') \<Longrightarrow>
   \<exists>p'. remove_card (pyramid s) a b = Inr (Some c, p') \<and>
        s' = s\<lparr>pyramid := p', removed_count := removed_count s + 1\<rparr>"
  by (auto simp: remove_pyramid_card_def split: sum.splits option.splits)

lemma remove_pyramid_card_card_at:
  "remove_pyramid_card s a b = Inr (x, s') \<Longrightarrow> card_at (pyramid s) a b = Inr x"
  by (auto simp: remove_pyramid_card_def split: sum.splits option.splits
      dest: remove_card_card_at)

lemma card_at_remove_pyramid_card:
  "card_at (pyramid s) a b = Inr (Some c) \<Longrightarrow> remove_pyramid_card s a b = Inr (x, s') \<Longrightarrow> x = Some c"
  using remove_pyramid_card_card_at by fastforce

lemma remove_pyramid_card_restore:
  assumes "remove_pyramid_card s a b = Inr (Some c, s')" and "flags_ok (pyramid s)"
  shows "restore_pyramid_card s' a b c = Inr s"
proof -
  obtain p' where p': "remove_card (pyramid s) a b = Inr (Some c, p')"
    and s': "s' = s\<lparr>pyramid := p', removed_count := removed_count s + 1\<rparr>"
    using assms(1) remove_pyramid_card_Some by blast
  show ?thesis
    using remove_card_restore [OF p' assms(2)] by (simp add: restore_pyramid_card_def s')
qed

lemma remove_pyramid_card_consistent:
  assumes "remove_pyramid_card s a b = Inr (x, s')" and "consistent s"
  shows "consistent s'"
proof (cases x)
  case None
  then show ?thesis using assms remove_pyramid_card_None by blast
next
  case (Some c)
  then obtain p' where p': "remove_card (pyramid s) a b = Inr (Some c, p')"
    and s': "s' = s\<lparr>pyramid := p', removed_count := removed_count s + 1\<rparr>"
    using assms(1) remove_pyramid_card_Some by blast
  show ?thesis
    using assms(2) remove_card_shape [OF p'] remove_card_flags [OF p'] remove_card_empty_cells [OF p']
    by (simp add: consistent_def s' shape_ok_def)
qed

text \<open>One pass of the removal loop adds at most one entry, and restoring that entry undoes it.\<close>

lemma remove_step_cases:
  assumes "remove_step (s, rc) loc = Inr (s', rc')"
  shows "(rc' = rc \<and> s' = s) \<or> (\<exists>c. rc' = rc @ [(fst loc, fst (snd loc), snd (snd loc), c)])"
  using assms
  by (auto simp: remove_step_def split: prod.splits if_splits sum.splits option.splits
      dest: remove_pyramid_card_None)

lemma remove_step_restore:
  assumes "remove_step (s, rc) loc = Inr (s', rc @ [entry])" and "flags_ok (pyramid s)"
  shows "restore_step s' entry = Inr s"
proof -
  obtain t a b where loc: "loc = (t, a, b)" by (cases loc) auto
  show ?thesis
  proof (cases "t = ''pyramid''")
    case True
    then obtain c where "remove_pyramid_card s a b = Inr (Some c, s')" and "entry = (t, a, b, c)"
      using assms(1) loc
      by (auto simp: remove_step_def split: sum.splits option.splits)
    then show ?thesis
      using remove_pyramid_card_restore [OF _ assms(2)] True by (simp add: restore_step_def)
  next
    case False
    then have "t = ''waste''" and "waste s \<noteq> []"
      and "s' = s\<lparr>waste := butlast (waste s)\<rparr>" and "entry = (t, a, b, last (waste s))"
      using assms(1) loc by (auto simp: remove_step_def split: if_splits)
    then show ?thesis by (simp add: restore_step_def)
  qed
qed

lemma remove_step_consistent:
  assumes "remove_step (s, rc) loc = Inr (s', rc')" and "consistent s"
  shows "consistent s'"
  using assms
  by (auto simp: remove_step_def consistent_def split: prod.splits if_splits sum.splits option.splits
      dest: remove_pyramid_card_consistent [unfolded consistent_def])

lemma remove_step_history:
  "remove_step (s, rc) loc = Inr (s', rc') \<Longrightarrow> history s' = history s"
  by (auto simp: remove_step_def split: prod.splits if_splits sum.splits option.splits
      dest!: remove_pyramid_card_None remove_pyramid_card_Some)

section \<open>Lemmas on remove_pair\<close>

lemma remove_step_appends:
  assumes "get_card s loc = Inr (Some c)" and "remove_step (s, rc) loc = Inr (s', rc')"
  shows "rc' = rc @ [(fst loc, fst (snd loc), snd (snd loc), c)]"
proof -
  obtain t a b where loc: "loc = (t, a, b)" by (cases loc) auto
  show ?thesis
  proof (cases "t = ''pyramid''")
    case True
    then have at: "card_at (pyramid s) a b = Inr (Some c)"
      using assms(1) loc by (simp add: get_card_def)
    obtain x where x: "remove_pyramid_card s a b = Inr (x, s')"
      using assms(2) loc True
      by (auto simp: remove_step_def split: sum.splits option.splits)
    then have "x = Some c" using at card_at_remove_pyramid_card by blast
    then show ?thesis using assms(2) loc True x by (simp add: remove_step_def)
  next
    case False
    then show ?thesis
      using assms loc by (auto simp: get_card_def remove_step_def split: if_splits)
  qed
qed

lemma get_card_after_remove_step:
  assumes "get_card s l1 = Inr (Some ca)" and "get_card s l2 = Inr (Some cb)" and "ca \<noteq> cb"
    and "remove_step (s, rc) l1 = Inr (s1, rc1)"
  shows "get_card s1 l2 = Inr (Some cb)"
proof -
  obtain t1 a1 b1 where l1: "l1 = (t1, a1, b1)" by (cases l1) auto
  obtain t2 a2 b2 where l2: "l2 = (t2, a2, b2)" by (cases l2) auto
  show ?thesis
  proof (cases "t1 = ''pyramid''")
    case True
    then have at: "card_at (pyramid s) a1 b1 = Inr (Some ca)"
      using assms(1) l1 by (simp add: get_card_def)
    obtain x where x: "remove_pyramid_card s a1 b1 = Inr (x, s1)"
      using assms(4) l1 True
      by (auto simp: remove_step_def split: sum.splits option.splits)
    then have "x = Some ca" using at card_at_remove_pyramid_card by blast
    then obtain p' where p': "remove_card (pyramid s) a1 b1 = Inr (Some ca, p')"
      and s1: "s1 = s\<lparr>pyramid := p', removed_count := removed_count s + 1\<rparr>"
      using x remove_pyramid_card_Some by blast
    show ?thesis
    proof (cases "t2 = ''pyramid''")
      case True
      then have "card_at (pyramid s) a2 b2 = Inr (Some cb)"
        using assms(2) l2 by (simp add: get_card_def)
      then have "card_at p' a2 b2 = Inr (Some cb)"
        using remove_card_other [OF p'] assms(3) by simp
      then show ?thesis using True l2 by (simp add: get_card_def s1)
    next
      case False
      then show ?thesis using assms(2) l2 by (auto simp: get_card_def s1 split: if_splits)
    qed
  next
    case False
    then have w: "t1 = ''waste''" "waste s \<noteq> []" "ca = last (waste s)"
      and s1: "s1 = s\<lparr>waste := butlast (waste s)\<rparr>"
      using assms(1,4) l1 by (auto simp: get_card_def remove_step_def split: if_splits)
    show ?thesis
    proof (cases "t2 = ''pyramid''")
      case True
      then show ?thesis using assms(2) l2 by (simp add: get_card_def s1)
    next
      case False
      then have "cb = last (waste s)"
        using assms(2) l2 by (auto simp: get_card_def split: if_splits)
      then show ?thesis using w assms(3) by simp
    qed
  qed
qed

text \<open>
  Once the checks of \<open>remove_pair\<close> have passed, its loop removes two cards: the
  roll-back branch is never taken.
\<close>

lemma remove_pair_takes_two:
  assumes "get_card s first = Inr (Some ca)" and "get_card s second = Inr (Some cb)"
    and "card_value ca + card_value cb = 13"
    and "remove_step (s, []) first = Inr (s1, rc1)"
    and "remove_step (s1, rc1) second = Inr (s2, rc2)"
  shows "\<exists>e1 e2. rc1 = [e1] \<and> rc2 = [e1, e2]"
proof -
  have ne: "ca \<noteq> cb" using assms(3) by (rule value_sum_13_distinct)
  have one: "rc1 = [] @ [(fst first, fst (snd first), snd (snd first), ca)]"
    using assms(1,4) by (rule remove_step_appends)
  have "get_card s1 second = Inr (Some cb)"
    using assms(1,2) ne assms(4) by (rule get_card_after_remove_step)
  then have "rc2 = rc1 @ [(fst second, fst (snd second), snd (snd second), cb)]"
    using assms(5) by (rule remove_step_appends)
  with one show ?thesis by simp
qed

lemma remove_pair_False:
  assumes "remove_pair s first second = Inr (False, s')"
  shows "s' = s"
proof (rule ccontr)
  assume ne: "s' \<noteq> s"
  then obtain ca cb st1 s2 rc2 where g: "get_card s first = Inr (Some ca)" "get_card s second = Inr (Some cb)"
    and v: "card_value ca + card_value cb = 13"
    and st: "remove_step (s, []) first = Inr st1" "remove_step st1 second = Inr (s2, rc2)"
    and len: "length rc2 \<noteq> 2"
    using assms
    by (auto simp: remove_pair_def split: if_splits sum.splits option.splits bool.splits prod.splits)
  obtain s1 rc1 where "st1 = (s1, rc1)" by (cases st1) auto
  then show False using remove_pair_takes_two [OF g v, of s1 rc1 s2 rc2] st len by auto
qed

lemma remove_pair_True:
  assumes "remove_pair s first second = Inr (True, s')"
  shows "\<exists>s1 s2 e1 e2. remove_step (s, []) first = Inr (s1, [e1]) \<and>
           remove_step (s1, [e1]) second = Inr (s2, [e1, e2]) \<and>
           s' = s2\<lparr>history := history s2 @ [RemovePair [e1, e2]]\<rparr>"
proof -
  obtain ca cb st1 s2 rc2 where g: "get_card s first = Inr (Some ca)" "get_card s second = Inr (Some cb)"
    and v: "card_value ca + card_value cb = 13"
    and st: "remove_step (s, []) first = Inr st1" "remove_step st1 second = Inr (s2, rc2)"
    and s': "s' = s2\<lparr>history := history s2 @ [RemovePair rc2]\<rparr>"
    using assms
    by (auto simp: remove_pair_def split: if_splits sum.splits option.splits bool.splits prod.splits)
  obtain s1 rc1 where st1: "st1 = (s1, rc1)" by (cases st1) auto
  obtain e1 e2 where e: "rc1 = [e1]" "rc2 = [e1, e2]"
    using remove_pair_takes_two [OF g v, of s1 rc1 s2 rc2] st st1 by blast
  have a: "remove_step (s, []) first = Inr (s1, [e1])" using st(1) st1 e by simp
  have b: "remove_step (s1, [e1]) second = Inr (s2, [e1, e2])" using st(2) st1 e by simp
  have c: "s' = s2\<lparr>history := history s2 @ [RemovePair [e1, e2]]\<rparr>" using s' e by simp
  show ?thesis using a b c by blast
qed

section \<open>Lemmas on the commands\<close>

subsection \<open>A refused command changes nothing\<close>

lemma draw_False: "draw s = (False, s') \<Longrightarrow> s' = s"
  by (auto simp: draw_def split: if_splits)

lemma redeal_False: "redeal s = (False, s') \<Longrightarrow> s' = s"
  by (auto simp: redeal_def split: if_splits)

lemma undo_False: "undo s = Inr (False, s') \<Longrightarrow> s' = s"
  by (auto simp: undo_def split: if_splits sum.splits)

lemma remove_king_False: "remove_king s loc = Inr (False, s') \<Longrightarrow> s' = s"
  by (auto simp: remove_king_def split: prod.splits if_splits sum.splits option.splits bool.splits)

subsection \<open>What a successful command does\<close>

lemma draw_True:
  "draw s = (True, s') \<Longrightarrow>
   stock s \<noteq> [] \<and>
   s' = s\<lparr>stock := butlast (stock s), waste := waste s @ [last (stock s)],
          history := history s @ [Draw (last (stock s))]\<rparr>"
  by (auto simp: draw_def split: if_splits)

lemma redeal_True:
  "redeal s = (True, s') \<Longrightarrow>
   redeals_used s < max_redeals s \<and> waste s \<noteq> [] \<and>
   s' = s\<lparr>stock := stock s @ rev (waste s), waste := [],
          redeals_used := redeals_used s + 1,
          history := history s @ [Redeal (stock s) (waste s)]\<rparr>"
  by (auto simp: redeal_def split: if_splits)

lemma remove_king_True:
  assumes "remove_king s loc = Inr (True, s')"
  shows "(\<exists>a b c s1. loc = (''pyramid'', a, b) \<and> remove_pyramid_card s a b = Inr (Some c, s1) \<and>
            s' = s1\<lparr>history := history s1 @ [RemoveKingPyramid a b c]\<rparr>) \<or>
         (fst loc = ''waste'' \<and> waste s \<noteq> [] \<and>
            s' = s\<lparr>waste := butlast (waste s),
                   history := history s @ [RemoveKingWaste (last (waste s))]\<rparr>)"
proof -
  obtain t a b where loc: "loc = (t, a, b)" by (cases loc) auto
  show ?thesis
  proof (cases "t = ''pyramid''")
    case True
    then obtain c x s1 where at: "card_at (pyramid s) a b = Inr (Some c)"
      and rm: "remove_pyramid_card s a b = Inr (x, s1)"
      and s': "s' = s1\<lparr>history := history s1 @ [RemoveKingPyramid a b c]\<rparr>"
      using assms loc
      by (auto simp: remove_king_def split: if_splits sum.splits option.splits bool.splits)
    have "x = Some c" using at rm card_at_remove_pyramid_card by blast
    then show ?thesis using True loc rm s' by blast
  next
    case False
    then show ?thesis
      using assms loc by (auto simp: remove_king_def split: if_splits)
  qed
qed

subsection \<open>The undo of the move just made\<close>

lemma draw_undo: "draw s = (True, s') \<Longrightarrow> undo s' = Inr (True, s)"
  by (auto simp: draw_def undo_def undo_move_def undo_draw_def split: if_splits)

lemma redeal_undo: "redeal s = (True, s') \<Longrightarrow> undo s' = Inr (True, s)"
  by (auto simp: redeal_def undo_def undo_move_def split: if_splits)

lemma remove_pyramid_card_history:
  "remove_pyramid_card s a b = Inr (x, s') \<Longrightarrow> history s' = history s"
  by (auto simp: remove_pyramid_card_def split: sum.splits option.splits)

lemma remove_king_undo:
  assumes "remove_king s loc = Inr (True, s')" and "flags_ok (pyramid s)"
  shows "undo s' = Inr (True, s)"
  using remove_king_True [OF assms(1)]
proof (elim disjE exE conjE)
  fix a b c s1
  assume rm: "remove_pyramid_card s a b = Inr (Some c, s1)"
    and s': "s' = s1\<lparr>history := history s1 @ [RemoveKingPyramid a b c]\<rparr>"
  have "restore_pyramid_card s1 a b c = Inr s"
    using rm assms(2) by (rule remove_pyramid_card_restore)
  then show ?thesis by (simp add: undo_def undo_move_def s')
next
  assume "waste s \<noteq> []"
    and "s' = s\<lparr>waste := butlast (waste s), history := history s @ [RemoveKingWaste (last (waste s))]\<rparr>"
  then show ?thesis by (simp add: undo_def undo_move_def)
qed

lemma remove_pair_undo:
  assumes "remove_pair s first second = Inr (True, s')" and "consistent s"
  shows "undo s' = Inr (True, s)"
proof -
  obtain s1 s2 e1 e2 where st1: "remove_step (s, []) first = Inr (s1, [] @ [e1])"
    and st2: "remove_step (s1, [e1]) second = Inr (s2, [e1] @ [e2])"
    and s': "s' = s2\<lparr>history := history s2 @ [RemovePair [e1, e2]]\<rparr>"
    using remove_pair_True [OF assms(1)] by auto
  have f: "flags_ok (pyramid s)" using assms(2) by (simp add: consistent_def)
  have "consistent s1" using st1 assms(2) by (rule remove_step_consistent)
  then have f1: "flags_ok (pyramid s1)" by (simp add: consistent_def)
  have r2: "restore_step s2 e2 = Inr s1" using st2 f1 by (rule remove_step_restore)
  have r1: "restore_step s1 e1 = Inr s" using st1 f by (rule remove_step_restore)
  show ?thesis by (simp add: undo_def undo_move_def s' r1 r2)
qed

section \<open>Lemmas on the constructed game, consistency and the history\<close>

subsection \<open>The constructed game\<close>

lemma deal_many_lengths:
  "deal_many n cards = Inr (cs, rest) \<Longrightarrow> length cs = n \<and> length rest + n = length cards"
proof (induction n arbitrary: cards cs rest)
  case 0
  then show ?case by simp
next
  case (Suc n)
  then show ?case
    by (fastforce simp: deal_def split: if_splits sum.splits prod.splits)
qed

lemma fill_rows_full:
  "sum_list ns \<le> length cards \<Longrightarrow>
   map length (fill_rows ns cards) = ns \<and>
   (\<forall>row \<in> set (fill_rows ns cards). \<forall>x \<in> set row. x \<noteq> None)"
proof (induction ns arbitrary: cards)
  case Nil
  then show ?case by simp
next
  case (Cons n ns)
  then have "sum_list ns \<le> length (drop n cards)" and "n \<le> length cards" by simp_all
  then show ?case using Cons.IH [of "drop n cards"] by auto
qed

lemma upt_1_8: "[1..<8] = [1, 2, 3, 4, 5, 6, 7]"
  by (simp add: upt_rec)

lemma Pyramid_init_28:
  assumes "length cards = 28"
  shows "shape_ok (Pyramid_init cards) \<and> flags_ok (Pyramid_init cards) \<and>
         empty_cells (Pyramid_init cards) = 0"
proof -
  define rs where "rs = fill_rows [1, 2, 3, 4, 5, 6, 7] cards"
  have shape: "map length rs = [1, 2, 3, 4, 5, 6, 7]"
    and full: "\<forall>row \<in> set rs. \<forall>x \<in> set row. x \<noteq> None"
    using fill_rows_full [of "[1, 2, 3, 4, 5, 6, 7]" cards] assms unfolding rs_def by simp_all
  have flags: "map (map (\<lambda>_. False)) rs = map (map (\<lambda>x. x = None)) rs"
    using full by (intro map_cong refl) simp
  have "map (\<lambda>row. length (filter (\<lambda>x. x = None) row)) rs = map (\<lambda>row. 0) rs"
    using full by (intro map_cong refl) (simp add: filter_empty_conv)
  then have empty: "sum_list (map (\<lambda>row. length (filter (\<lambda>x. x = None) row)) rs) = 0"
    by simp
  have "Pyramid_init cards = \<lparr>rows = rs, removed = map (map (\<lambda>_. False)) rs\<rparr>"
    by (simp only: Pyramid_init_def upt_1_8 rs_def Let_def)
  then show ?thesis
    using shape flags empty by (simp add: shape_ok_def flags_ok_def empty_cells_def)
qed

lemma reset_Inr:
  assumes "reset shuffle entropy s = Inr s'"
  shows "consistent s' \<and> history s' = [] \<and> waste s' = [] \<and> redeals_used s' = 0 \<and>
         removed_count s' = 0 \<and> seed s' = seed s \<and> max_redeals s' = max_redeals s \<and>
         length (stock s') + 28 = length (Deck shuffle entropy (seed s))"
proof -
  obtain pc rest where d: "deal_many 28 (Deck shuffle entropy (seed s)) = Inr (pc, rest)"
    and s': "s' = s\<lparr>pyramid := Pyramid_init pc, stock := rest, waste := [],
                     removed_count := 0, redeals_used := 0, history := []\<rparr>"
    using assms by (auto simp: reset_def split: sum.splits)
  have "length pc = 28" and "length rest + 28 = length (Deck shuffle entropy (seed s))"
    using deal_many_lengths [OF d] by simp_all
  then show ?thesis using Pyramid_init_28 [of pc] by (simp add: s' consistent_def)
qed

lemma GameState_init_Inr:
  assumes "GameState_init shuffle entropy seed0 max0 = Inr s'"
  shows "consistent s' \<and> history s' = [] \<and> waste s' = [] \<and> redeals_used s' = 0 \<and>
         removed_count s' = 0 \<and> seed s' = seed0 \<and> max_redeals s' = max0 \<and>
         length (stock s') + 28 = length (Deck shuffle entropy seed0)"
  using reset_Inr [OF assms [unfolded GameState_init_def]] by simp

subsection \<open>Consistency is kept\<close>

lemma draw_consistent: "draw s = (b, s') \<Longrightarrow> consistent s \<Longrightarrow> consistent s'"
  by (auto simp: draw_def consistent_def split: if_splits)

lemma redeal_consistent: "redeal s = (b, s') \<Longrightarrow> consistent s \<Longrightarrow> consistent s'"
  by (auto simp: redeal_def consistent_def split: if_splits)

lemma remove_king_consistent:
  assumes "remove_king s loc = Inr (True, s')" and "consistent s"
  shows "consistent s'"
  using remove_king_True [OF assms(1)] assms(2)
  by (auto simp: consistent_def dest: remove_pyramid_card_consistent [unfolded consistent_def])

lemma remove_pair_consistent:
  assumes "remove_pair s first second = Inr (True, s')" and "consistent s"
  shows "consistent s'"
proof -
  obtain s1 s2 e1 e2 where st1: "remove_step (s, []) first = Inr (s1, [e1])"
    and st2: "remove_step (s1, [e1]) second = Inr (s2, [e1, e2])"
    and s': "s' = s2\<lparr>history := history s2 @ [RemovePair [e1, e2]]\<rparr>"
    using remove_pair_True [OF assms(1)] by auto
  have "consistent s2"
    using st2 remove_step_consistent [OF st1 assms(2)] by (rule remove_step_consistent)
  then show ?thesis by (simp add: s' consistent_def)
qed

subsection \<open>The history grows by one move and shrinks by one\<close>

lemma draw_history:
  "draw s = (True, s') \<Longrightarrow> \<exists>m. history s' = history s @ [m] \<and> waste_removals m = 0"
  by (auto simp: draw_def split: if_splits)

lemma redeal_history:
  "redeal s = (True, s') \<Longrightarrow> \<exists>m. history s' = history s @ [m] \<and> waste_removals m = 0"
  by (auto simp: redeal_def split: if_splits)

lemma remove_king_history:
  assumes "remove_king s loc = Inr (True, s')"
  shows "\<exists>m. history s' = history s @ [m]"
  using remove_king_True [OF assms]
  by (auto dest: remove_pyramid_card_history)

lemma remove_pair_history:
  assumes "remove_pair s first second = Inr (True, s')"
  shows "\<exists>m. history s' = history s @ [m]"
proof -
  obtain s1 s2 e1 e2 where st1: "remove_step (s, []) first = Inr (s1, [e1])"
    and st2: "remove_step (s1, [e1]) second = Inr (s2, [e1, e2])"
    and s': "s' = s2\<lparr>history := history s2 @ [RemovePair [e1, e2]]\<rparr>"
    using remove_pair_True [OF assms(1)] by auto
  have "history s2 = history s"
    using remove_step_history [OF st1] remove_step_history [OF st2] by simp
  then show ?thesis by (simp add: s')
qed

lemma remove_pair_records_two:
  assumes "remove_pair s first second = Inr (True, s')"
  shows "\<exists>e1 e2. history s' = history s @ [RemovePair [e1, e2]]"
proof -
  obtain s1 s2 e1 e2 where st1: "remove_step (s, []) first = Inr (s1, [e1])"
    and st2: "remove_step (s1, [e1]) second = Inr (s2, [e1, e2])"
    and s': "s' = s2\<lparr>history := history s2 @ [RemovePair [e1, e2]]\<rparr>"
    using remove_pair_True [OF assms(1)] by auto
  have "history s2 = history s"
    using remove_step_history [OF st1] remove_step_history [OF st2] by simp
  then have "history s' = history s @ [RemovePair [e1, e2]]" by (simp add: s')
  then show ?thesis by blast
qed

lemma restore_step_history: "restore_step s entry = Inr s' \<Longrightarrow> history s' = history s"
  by (auto simp: restore_step_def restore_pyramid_card_def split: prod.splits if_splits sum.splits)

lemma restore_all_history: "restore_all s entries = Inr s' \<Longrightarrow> history s' = history s"
proof (induction entries arbitrary: s)
  case Nil
  then show ?case by simp
next
  case (Cons entry entries)
  then show ?case by (auto split: sum.splits dest: restore_step_history)
qed

lemma undo_move_history: "undo_move s m = Inr s' \<Longrightarrow> history s' = history s"
  by (cases m)
    (auto simp: undo_move_def undo_draw_def restore_pyramid_card_def
      split: if_splits sum.splits dest: restore_all_history)

lemma undo_True_history:
  "undo s = Inr (True, s') \<Longrightarrow> history s \<noteq> [] \<and> history s' = butlast (history s)"
  by (auto simp: undo_def split: if_splits sum.splits dest: undo_move_history)

section \<open>The invariant of the reachable states\<close>

subsection \<open>Every reachable state unwinds\<close>

lemma unwinds_holds: "unwinds P n s \<Longrightarrow> P s"
  by (cases n) auto

lemma unwinds_push:
  assumes "unwinds P (length (history s)) s" and "undo s' = Inr (True, s)" and "P s'"
    and "history s' = history s @ [m]"
  shows "unwinds P (length (history s')) s'"
  using assms by simp

lemma unwinds_pop:
  assumes "unwinds P (length (history s)) s" and "undo s = Inr (b, s')"
  shows "unwinds P (length (history s')) s'"
proof (cases b)
  case False
  then show ?thesis using assms by (auto dest: undo_False)
next
  case True
  then have u: "undo s = Inr (True, s')" using assms(2) by simp
  then have h: "history s \<noteq> []" "history s' = butlast (history s)"
    using undo_True_history by blast+
  then obtain n where n: "length (history s) = Suc n" by (cases "history s") auto
  then have "unwinds P n s'" using assms(1) u by simp
  then show ?thesis using h n by simp
qed

lemma reachable_unwinds:
  assumes "reachable shuffle s"
    and P_reset: "\<And>entropy s0 s1. reset shuffle entropy s0 = Inr s1 \<Longrightarrow> P s1"
    and P_consistent: "\<And>s. P s \<Longrightarrow> consistent s"
    and P_draw: "\<And>s s'. P s \<Longrightarrow> draw s = (True, s') \<Longrightarrow> P s'"
    and P_king: "\<And>s s' loc. P s \<Longrightarrow> remove_king s loc = Inr (True, s') \<Longrightarrow> P s'"
    and P_pair: "\<And>s s' l1 l2. P s \<Longrightarrow> remove_pair s l1 l2 = Inr (True, s') \<Longrightarrow> P s'"
    and P_redeal: "\<And>s s'. P s \<Longrightarrow> redeal s = (True, s') \<Longrightarrow> P s'"
  shows "unwinds P (length (history s)) s"
  using assms(1)
proof (induction rule: reachable.induct)
  case (r_init entropy seed0 max0 s)
  then have "P s" and "history s = []"
    using P_reset GameState_init_Inr unfolding GameState_init_def by blast+
  then show ?case by simp
next
  case (r_draw s b s')
  show ?case
  proof (cases b)
    case True
    then have d: "draw s = (True, s')" using r_draw by simp
    have "P s'" using unwinds_holds [OF r_draw.IH] d by (rule P_draw)
    then show ?thesis
      using unwinds_push [OF r_draw.IH draw_undo [OF d]] draw_history [OF d] by blast
  next
    case False
    then show ?thesis using r_draw by (auto dest: draw_False)
  qed
next
  case (r_remove_king s location b s')
  show ?case
  proof (cases b)
    case True
    then have k: "remove_king s location = Inr (True, s')" using r_remove_king by simp
    have P: "P s" by (rule unwinds_holds [OF r_remove_king.IH])
    then have "flags_ok (pyramid s)" using P_consistent consistent_def by blast
    then have u: "undo s' = Inr (True, s)" by (rule remove_king_undo [OF k])
    have "P s'" using P k by (rule P_king)
    then show ?thesis
      using unwinds_push [OF r_remove_king.IH u] remove_king_history [OF k] by blast
  next
    case False
    then show ?thesis using r_remove_king by (auto dest: remove_king_False)
  qed
next
  case (r_remove_pair s first second b s')
  show ?case
  proof (cases b)
    case True
    then have k: "remove_pair s first second = Inr (True, s')" using r_remove_pair by simp
    have P: "P s" by (rule unwinds_holds [OF r_remove_pair.IH])
    then have "consistent s" by (rule P_consistent)
    then have u: "undo s' = Inr (True, s)" by (rule remove_pair_undo [OF k])
    have "P s'" using P k by (rule P_pair)
    then show ?thesis
      using unwinds_push [OF r_remove_pair.IH u] remove_pair_history [OF k] by blast
  next
    case False
    then show ?thesis using r_remove_pair by (auto dest: remove_pair_False)
  qed
next
  case (r_redeal s b s')
  show ?case
  proof (cases b)
    case True
    then have d: "redeal s = (True, s')" using r_redeal by simp
    have "P s'" using unwinds_holds [OF r_redeal.IH] d by (rule P_redeal)
    then show ?thesis
      using unwinds_push [OF r_redeal.IH redeal_undo [OF d]] redeal_history [OF d] by blast
  next
    case False
    then show ?thesis using r_redeal by (auto dest: redeal_False)
  qed
next
  case (r_undo s b s')
  then show ?case using unwinds_pop by blast
next
  case (r_reset s entropy s')
  then have "P s'" and "history s' = []"
    using P_reset reset_Inr by blast+
  then show ?case by simp
qed

lemma reachable_unwinds_consistent:
  assumes "reachable shuffle s"
  shows "unwinds consistent (length (history s)) s"
  using assms
proof (rule reachable_unwinds)
  show "\<And>entropy s0 s1. reset shuffle entropy s0 = Inr s1 \<Longrightarrow> consistent s1"
    using reset_Inr by blast
  show "\<And>s s'. consistent s \<Longrightarrow> draw s = (True, s') \<Longrightarrow> consistent s'"
    using draw_consistent by blast
  show "\<And>s s' loc. consistent s \<Longrightarrow> remove_king s loc = Inr (True, s') \<Longrightarrow> consistent s'"
    using remove_king_consistent by blast
  show "\<And>s s' l1 l2. consistent s \<Longrightarrow> remove_pair s l1 l2 = Inr (True, s') \<Longrightarrow> consistent s'"
    using remove_pair_consistent by blast
  show "\<And>s s'. consistent s \<Longrightarrow> redeal s = (True, s') \<Longrightarrow> consistent s'"
    using redeal_consistent by blast
qed

lemma reachable_consistent: "reachable shuffle s \<Longrightarrow> consistent s"
  using reachable_unwinds_consistent unwinds_holds by blast

lemma game2_constructed: "GameState_init sample_shuffle 0 (Some 2) 1 = Inr game2"
  by code_simp

lemma game2_reachable: "reachable sample_shuffle game2"
  using game2_constructed by (rule r_init)

lemma game2_drawn_step: "draw game2 = (True, game2_drawn)"
  by code_simp

lemma game2_drawn_reachable: "reachable sample_shuffle game2_drawn"
  using game2_reachable game2_drawn_step by (rule r_draw)

lemma game2_drawn_twice_step: "draw game2_drawn = (True, game2_drawn_twice)"
  by code_simp

lemma game2_drawn_twice_reachable: "reachable sample_shuffle game2_drawn_twice"
  using game2_drawn_reachable game2_drawn_twice_step by (rule r_draw)

section \<open>Lemmas on where the cards are\<close>

subsection \<open>Where the 52 cards are\<close>

lemma row_cells:
  "length (filter (\<lambda>x. x \<noteq> None) row) + length (filter (\<lambda>x. x = None) row) = length row"
  by (induction row) auto

lemma cells_28:
  assumes "shape_ok p"
  shows "occupied_cells p + empty_cells p = 28"
proof -
  have "occupied_cells p + empty_cells p = sum_list (map length (rows p))"
    unfolding occupied_cells_def empty_cells_def sum_list_addf [symmetric]
    by (simp only: row_cells)
  also have "\<dots> = 28" using assms by (simp add: shape_ok_def)
  finally show ?thesis .
qed

lemma nonempty_length: "xs \<noteq> [] \<Longrightarrow> \<exists>n. length xs = Suc n"
  by (cases xs) auto

lemma remove_pyramid_card_piles:
  "remove_pyramid_card s a b = Inr (x, s') \<Longrightarrow> stock s' = stock s \<and> waste s' = waste s"
  by (auto simp: remove_pyramid_card_def split: sum.splits option.splits)

lemma remove_step_piles:
  assumes "remove_step (s, rc) loc = Inr (s', rc @ [entry])"
  shows "stock s' = stock s \<and>
         length (waste s') + length (filter (\<lambda>e. fst e = ''waste'') [entry]) = length (waste s)"
proof -
  obtain t a b where loc: "loc = (t, a, b)" by (cases loc) auto
  show ?thesis
  proof (cases "t = ''pyramid''")
    case True
    then show ?thesis
      using assms loc
      by (auto simp: remove_step_def split: sum.splits option.splits
          dest: remove_pyramid_card_piles)
  next
    case False
    then show ?thesis
      using assms loc by (auto simp: remove_step_def split: if_splits)
  qed
qed

lemma reset_accounted:
  assumes "reset shuffle entropy s0 = Inr s1" and "\<forall>n. length (shuffle n ordered_cards) = 52"
  shows "accounted s1"
  using reset_Inr [OF assms(1)] assms(2)
  by (simp add: accounted_def waste_removed_def Deck_def)

lemma draw_accounted:
  assumes "accounted s" and "draw s = (True, s')"
  shows "accounted s'"
proof -
  obtain n where "length (stock s) = Suc n"
    using draw_True [OF assms(2)] nonempty_length by blast
  then show ?thesis
    using draw_True [OF assms(2)] assms(1)
    by (auto simp: accounted_def consistent_def waste_removed_def)
qed

lemma redeal_accounted:
  assumes "accounted s" and "redeal s = (True, s')"
  shows "accounted s'"
  using redeal_True [OF assms(2)] assms(1)
  by (auto simp: accounted_def consistent_def waste_removed_def)

lemma remove_king_accounted:
  assumes "accounted s" and "remove_king s loc = Inr (True, s')"
  shows "accounted s'"
proof -
  have c: "consistent s'"
    using assms remove_king_consistent by (simp add: accounted_def)
  from remove_king_True [OF assms(2)] show ?thesis
  proof (elim disjE exE conjE)
    fix a b c' s1
    assume rm: "remove_pyramid_card s a b = Inr (Some c', s1)"
      and s': "s' = s1\<lparr>history := history s1 @ [RemoveKingPyramid a b c']\<rparr>"
    show ?thesis
      using remove_pyramid_card_piles [OF rm] remove_pyramid_card_history [OF rm] assms(1) c
      by (simp add: accounted_def waste_removed_def s')
  next
    assume w: "waste s \<noteq> []"
      and s': "s' = s\<lparr>waste := butlast (waste s),
                     history := history s @ [RemoveKingWaste (last (waste s))]\<rparr>"
    obtain n where "length (waste s) = Suc n"
      using w nonempty_length by blast
    then show ?thesis
      using assms(1) c s' by (auto simp: accounted_def waste_removed_def)
  qed
qed

lemma remove_pair_accounted:
  assumes "accounted s" and "remove_pair s l1 l2 = Inr (True, s')"
  shows "accounted s'"
proof -
  obtain s1 s2 e1 e2 where st1: "remove_step (s, []) l1 = Inr (s1, [] @ [e1])"
    and st2: "remove_step (s1, [e1]) l2 = Inr (s2, [e1] @ [e2])"
    and s': "s' = s2\<lparr>history := history s2 @ [RemovePair [e1, e2]]\<rparr>"
    using remove_pair_True [OF assms(2)] by auto
  have c: "consistent s'"
    using assms remove_pair_consistent by (simp add: accounted_def)
  have h: "history s2 = history s"
    using remove_step_history [OF st1] remove_step_history [OF st2] by simp
  show ?thesis
    using remove_step_piles [OF st1] remove_step_piles [OF st2] assms(1) c h
    by (auto simp: accounted_def waste_removed_def s')
qed

lemma reachable_accounted:
  assumes "reachable shuffle s" and "\<forall>n. length (shuffle n ordered_cards) = 52"
  shows "accounted s"
proof -
  have "unwinds accounted (length (history s)) s"
    using assms(1)
  proof (rule reachable_unwinds)
    show "\<And>entropy s0 s1. reset shuffle entropy s0 = Inr s1 \<Longrightarrow> accounted s1"
      using reset_accounted assms(2) by blast
    show "\<And>s. accounted s \<Longrightarrow> consistent s"
      by (simp add: accounted_def)
    show "\<And>s s'. accounted s \<Longrightarrow> draw s = (True, s') \<Longrightarrow> accounted s'"
      using draw_accounted by blast
    show "\<And>s s' loc. accounted s \<Longrightarrow> remove_king s loc = Inr (True, s') \<Longrightarrow> accounted s'"
      using remove_king_accounted by blast
    show "\<And>s s' l1 l2. accounted s \<Longrightarrow> remove_pair s l1 l2 = Inr (True, s') \<Longrightarrow> accounted s'"
      using remove_pair_accounted by blast
    show "\<And>s s'. accounted s \<Longrightarrow> redeal s = (True, s') \<Longrightarrow> accounted s'"
      using redeal_accounted by blast
  qed
  then show ?thesis by (rule unwinds_holds)
qed

lemma sample_shuffle_52: "\<forall>n. length (sample_shuffle n ordered_cards) = 52"
  by (simp add: sample_shuffle_def seed1_cards_def seed2_cards_def ordered_cards_def
      RANKS_def SUITS_def)

lemma game2_king_gone_step:
  "remove_king game2_drawn (''waste'', 0, 0) = Inr (True, game2_king_gone)"
  by code_simp

lemma game2_king_gone_reachable: "reachable sample_shuffle game2_king_gone"
  using game2_drawn_reachable game2_king_gone_step by (rule r_remove_king)

section \<open>Lemmas on exposure and the legal-move scan\<close>

subsection \<open>Exposure on a board of the right shape\<close>

lemma shape_rows:
  assumes "shape_ok p"
  shows "length (rows p) = 7" and "i < 7 \<Longrightarrow> length (rows p ! i) = Suc i"
proof -
  have m: "map length (rows p) = [1..<8]"
    using assms by (simp only: shape_ok_def upt_1_8)
  then have "length (map length (rows p)) = 7" by simp
  then show l: "length (rows p) = 7" by simp
  show "length (rows p ! i) = Suc i" if "i < 7"
  proof -
    have "length (rows p ! i) = map length (rows p) ! i"
      using that l by simp
    also have "\<dots> = Suc i" using that unfolding m by simp
    finally show ?thesis .
  qed
qed

lemma cell_of_in_range:
  assumes "shape_ok p" and "0 \<le> c" and "c \<le> r" and "r \<le> 6"
  shows "cell_of (rows p) r c = Some (nat r, nat c)"
proof -
  have "nat r < 7" using assms by simp
  then have "length (rows p ! nat r) = Suc (nat r)" using shape_rows(2) [OF assms(1)] by simp
  then show ?thesis
    using assms shape_rows(1) [OF assms(1)] by (simp add: cell_of_def py_index_def)
qed

lemma is_exposed_in_range:
  assumes "shape_ok p" and "0 \<le> c" and "c \<le> r" and "r \<le> 6"
  shows "is_exposed p r c = Inr (exposed_rule p (nat r) (nat c))"
proof (cases "r = 6")
  case True
  then show ?thesis
    using cell_of_in_range [OF assms] shape_rows(1) [OF assms(1)]
    by (simp add: is_exposed_def getitem2_cell exposed_rule_def split: option.splits)
next
  case False
  then have r: "r + 1 \<le> 6" "nat r \<noteq> 6" "nat (r + 1) = nat r + 1" "nat (c + 1) = nat c + 1"
    using assms by simp_all
  have below: "cell_of (rows p) (r + 1) c = Some (nat (r + 1), nat c)"
    "cell_of (rows p) (r + 1) (c + 1) = Some (nat (r + 1), nat (c + 1))"
    using assms r(1) by (simp_all add: cell_of_in_range)
  show ?thesis
    using cell_of_in_range [OF assms] below False r shape_rows(1) [OF assms(1)]
    by (auto simp: is_exposed_def getitem2_cell exposed_rule_def split: option.splits)
qed

lemma all_cards_set:
  "(r, c, x) \<in> set (all_cards p) \<longleftrightarrow>
   (\<exists>i j. i < length (rows p) \<and> j < length (rows p ! i) \<and> r = int i \<and> c = int j \<and>
          x = rows p ! i ! j)"
proof
  assume "(r, c, x) \<in> set (all_cards p)"
  then obtain i row j y where "(i, row) \<in> set (enumerate 0 (rows p))"
    and "(j, y) \<in> set (enumerate 0 row)" and "(r, c, x) = (int i, int j, y)"
    by (auto simp: all_cards_def)
  then show "\<exists>i j. i < length (rows p) \<and> j < length (rows p ! i) \<and> r = int i \<and> c = int j \<and>
          x = rows p ! i ! j"
    by (auto simp: in_set_enumerate_eq)
next
  assume "\<exists>i j. i < length (rows p) \<and> j < length (rows p ! i) \<and> r = int i \<and> c = int j \<and>
          x = rows p ! i ! j"
  then obtain i j where ij: "i < length (rows p)" "j < length (rows p ! i)"
    and eq: "r = int i" "c = int j" "x = rows p ! i ! j"
    by blast
  have "(i, rows p ! i) \<in> set (enumerate 0 (rows p))"
    using ij(1) by (simp add: in_set_enumerate_eq)
  moreover have "(j, x) \<in> set (enumerate 0 (rows p ! i))"
    using ij(2) eq(3) by (simp add: in_set_enumerate_eq)
  ultimately show "(r, c, x) \<in> set (all_cards p)"
    unfolding all_cards_def set_concat set_map eq(1,2) by force
qed

lemma scan_exposed_result:
  assumes "\<forall>(r, c, x) \<in> set cells. is_exposed p r c = Inr (E r c)"
  shows "case scan_exposed p cells acc of
           Inl e \<Rightarrow> False
         | Inr None \<Rightarrow> (\<exists>(r, c, x) \<in> set cells. \<exists>y. x = Some y \<and> E r c \<and> card_value y = 13)
         | Inr (Some vs) \<Rightarrow>
             \<not> (\<exists>(r, c, x) \<in> set cells. \<exists>y. x = Some y \<and> E r c \<and> card_value y = 13) \<and>
             set vs = set acc \<union> {card_value y |r c y. (r, c, Some y) \<in> set cells \<and> E r c}"
  using assms
proof (induction p cells acc rule: scan_exposed.induct)
  case (1 p exposed_cards)
  then show ?case by simp
next
  case (2 p r c cells exposed_cards)
  then show ?case by (auto split: sum.splits option.splits)
next
  case (3 p r c x cells exposed_cards)
  show ?case
  proof (cases "E r c")
    case False
    then have e: "is_exposed p r c = Inr False" using "3.prems" by simp
    have "\<forall>(r, c, x) \<in> set cells. is_exposed p r c = Inr (E r c)" using "3.prems" by simp
    from "3.IH"(2) [OF e refl this] e False show ?thesis
      by (auto split: sum.splits option.splits)
  next
    case True
    then have e: "is_exposed p r c = Inr True" using "3.prems" by simp
    show ?thesis
    proof (cases "card_value x = 13")
      case True
      then show ?thesis using e \<open>E r c\<close> by simp
    next
      case False
      have "\<forall>(r, c, x) \<in> set cells. is_exposed p r c = Inr (E r c)" using "3.prems" by simp
      from "3.IH"(1) [OF e refl False this] e False \<open>E r c\<close> show ?thesis
        by (auto split: sum.splits option.splits)
    qed
  qed
qed

lemma pair_sums_13_set:
  "pair_sums_13 vs \<longleftrightarrow> (\<exists>v \<in> set vs. \<exists>w \<in> set vs. v + w = 13)"
proof (induction vs)
  case Nil
  then show ?case by simp
next
  case (Cons x xs)
  show ?case
  proof
    assume "pair_sums_13 (x # xs)"
    then consider w where "w \<in> set xs" "x + w = 13" | "pair_sums_13 xs"
      by (auto simp: list_ex_iff)
    then show "\<exists>v \<in> set (x # xs). \<exists>w \<in> set (x # xs). v + w = 13"
    proof cases
      case 1
      then show ?thesis by auto
    next
      case 2
      then show ?thesis using Cons.IH by auto
    qed
  next
    assume "\<exists>v \<in> set (x # xs). \<exists>w \<in> set (x # xs). v + w = 13"
    then obtain v w where vw: "v \<in> set (x # xs)" "w \<in> set (x # xs)" "v + w = 13"
      by blast
    have odd: "x + x \<noteq> 13" by presburger
    consider "v = x" "w \<in> set xs" | "v \<in> set xs" "w = x" | "v \<in> set xs" "w \<in> set xs"
      using vw odd by auto
    then show "pair_sums_13 (x # xs)"
    proof cases
      case 1
      then show ?thesis using vw(3) by (auto simp: list_ex_iff)
    next
      case 2
      then have "x + v = 13" using vw(3) by simp
      then show ?thesis using 2 by (auto simp: list_ex_iff)
    next
      case 3
      then show ?thesis using vw(3) Cons.IH by auto
    qed
  qed
qed

lemma exposed_slots_set:
  "set (exposed_slots s) =
     {Cell r c |r c. r < 7 \<and> c \<le> r \<and> exposed_rule (pyramid s) r c}
     \<union> (if waste s = [] then {} else {WasteTop})"
  by (auto simp: exposed_slots_def less_Suc_eq_le simp del: upt_Suc)

lemma distinct_pair_values:
  fixes f :: "'a \<Rightarrow> int"
  shows "(\<exists>x \<in> S. \<exists>y \<in> S. x \<noteq> y \<and> f x + f y = 13) \<longleftrightarrow> (\<exists>v \<in> f ` S. \<exists>w \<in> f ` S. v + w = 13)"
proof
  assume "\<exists>x \<in> S. \<exists>y \<in> S. x \<noteq> y \<and> f x + f y = 13"
  then show "\<exists>v \<in> f ` S. \<exists>w \<in> f ` S. v + w = 13" by blast
next
  assume "\<exists>v \<in> f ` S. \<exists>w \<in> f ` S. v + w = 13"
  then obtain x y where xy: "x \<in> S" "y \<in> S" "f x + f y = 13" by blast
  have "f x + f x \<noteq> 13" by presburger
  then have "x \<noteq> y" using xy(3) by auto
  then show "\<exists>x \<in> S. \<exists>y \<in> S. x \<noteq> y \<and> f x + f y = 13" using xy by blast
qed

lemma legal_moves_remaining_eq:
  assumes "shape_ok (pyramid s)"
  shows "legal_moves_remaining s = Inr (legal_moves_spec s)"
proof (cases "stock s \<noteq> [] \<or> (waste s \<noteq> [] \<and> redeals_used s < max_redeals s)")
  case True
  then show ?thesis by (auto simp: legal_moves_remaining_def legal_moves_spec_def)
next
  case False
  define p where "p = pyramid s"
  define E where "E = (\<lambda>r c. exposed_rule p (nat r) (nat c))"
  define C where "C = {Cell r c |r c. r < 7 \<and> c \<le> r \<and> exposed_rule p r c}"
  define K where "K \<longleftrightarrow> (\<exists>r \<in> {0..<7}. \<exists>c \<in> {0..r}.
      exposed_rule p r c \<and> card_value (the (rows p ! r ! c)) = 13)"
  define D where "D \<longleftrightarrow> (\<exists>x \<in> set (exposed_slots s). \<exists>y \<in> set (exposed_slots s).
      x \<noteq> y \<and> slot_value s x + slot_value s y = 13)"
  have shape: "shape_ok p" using assms by (simp add: p_def)
  have len: "length (rows p) = 7" "\<And>i. i < 7 \<Longrightarrow> length (rows p ! i) = Suc i"
    using shape_rows [OF shape] by simp_all
  have cell: "(r, c, x) \<in> set (all_cards p) \<longleftrightarrow>
      (\<exists>i j. i < 7 \<and> j \<le> i \<and> r = int i \<and> c = int j \<and> rows p ! i ! j = x)" for r c x
    unfolding all_cards_set using len by (auto simp: less_Suc_eq_le)
  have cells: "\<forall>(r, c, x) \<in> set (all_cards p). is_exposed p r c = Inr (E r c)"
    unfolding E_def using is_exposed_in_range [OF shape] by (auto simp: cell)
  have kings: "(\<exists>(r, c, x) \<in> set (all_cards p). \<exists>y. x = Some y \<and> E r c \<and> card_value y = 13) \<longleftrightarrow> K"
  proof
    assume "\<exists>(r, c, x) \<in> set (all_cards p). \<exists>y. x = Some y \<and> E r c \<and> card_value y = 13"
    then obtain i j y where "i < 7" "j \<le> i" "rows p ! i ! j = Some y" "E (int i) (int j)"
      "card_value y = 13"
      by (auto simp: cell)
    then show K unfolding K_def E_def by force
  next
    assume K
    then obtain r c where rc: "r < 7" "c \<le> r" "exposed_rule p r c"
      "card_value (the (rows p ! r ! c)) = 13"
      unfolding K_def by auto
    then obtain y where y: "rows p ! r ! c = Some y" by (auto simp: exposed_rule_def)
    have "(int r, int c, Some y) \<in> set (all_cards p)" using rc(1,2) y by (auto simp: cell)
    moreover have "E (int r) (int c)" using rc(3) by (simp add: E_def)
    ultimately show "\<exists>(r, c, x) \<in> set (all_cards p). \<exists>y. x = Some y \<and> E r c \<and> card_value y = 13"
      using rc(4) y by force
  qed
  have vals: "{card_value y |r c y. (r, c, Some y) \<in> set (all_cards p) \<and> E r c} = slot_value s ` C"
  proof (intro equalityI subsetI)
    fix v
    assume "v \<in> {card_value y |r c y. (r, c, Some y) \<in> set (all_cards p) \<and> E r c}"
    then obtain i j y where ij: "i < 7" "j \<le> i" "rows p ! i ! j = Some y" "E (int i) (int j)"
      and v: "v = card_value y"
      by (auto simp: cell)
    then have "Cell i j \<in> C" by (simp add: C_def E_def)
    moreover have "slot_value s (Cell i j) = v" using ij(3) v by (simp add: p_def [symmetric])
    ultimately show "v \<in> slot_value s ` C" by blast
  next
    fix v
    assume "v \<in> slot_value s ` C"
    then obtain r c where rc: "r < 7" "c \<le> r" "exposed_rule p r c"
      and v: "v = slot_value s (Cell r c)"
      by (auto simp: C_def)
    then obtain y where y: "rows p ! r ! c = Some y" by (auto simp: exposed_rule_def)
    have "(int r, int c, Some y) \<in> set (all_cards p)" using rc(1,2) y by (auto simp: cell)
    moreover have "E (int r) (int c)" using rc(3) by (simp add: E_def)
    moreover have "v = card_value y" using v y by (simp add: p_def [symmetric])
    ultimately show "v \<in> {card_value y |r c y. (r, c, Some y) \<in> set (all_cards p) \<and> E r c}"
      by blast
  qed
  have slots: "set (exposed_slots s) = C \<union> (if waste s = [] then {} else {WasteTop})"
    by (simp add: exposed_slots_set C_def p_def)
  have D_vals: "D \<longleftrightarrow> (\<exists>v \<in> slot_value s ` set (exposed_slots s).
      \<exists>w \<in> slot_value s ` set (exposed_slots s). v + w = 13)"
    unfolding D_def by (rule distinct_pair_values)
  have spec: "legal_moves_spec s \<longleftrightarrow> K \<or> (waste s \<noteq> [] \<and> card_value (last (waste s)) = 13) \<or> D"
    using False unfolding legal_moves_spec_def K_def D_def p_def by blast
  have code: "legal_moves_remaining s =
      (case scan_exposed p (all_cards p) [] of
         Inl e \<Rightarrow> Inl e
       | Inr None \<Rightarrow> Inr True
       | Inr (Some exposed_cards) \<Rightarrow>
           if waste s \<noteq> [] then
             (if card_value (last (waste s)) = 13 then Inr True
              else Inr (pair_sums_13 (exposed_cards @ [card_value (last (waste s))])))
           else Inr (pair_sums_13 exposed_cards))"
    using False unfolding legal_moves_remaining_def p_def by auto
  note scan = scan_exposed_result [OF cells, of "[]", unfolded kings vals]
  show ?thesis
  proof (cases "scan_exposed p (all_cards p) []")
    case (Inl e)
    then show ?thesis using scan by simp
  next
    case (Inr res)
    show ?thesis
    proof (cases res)
      case None
      then have K using scan Inr by simp
      then show ?thesis using Inr None by (simp add: code spec)
    next
      case (Some vs)
      then have nK: "\<not> K" and set_vs: "set vs = slot_value s ` C" using scan Inr by simp_all
      show ?thesis
      proof (cases "waste s = []")
        case True
        then have "D \<longleftrightarrow> pair_sums_13 vs"
          unfolding D_vals slots pair_sums_13_set set_vs by simp
        then show ?thesis using Inr Some True nK by (simp add: code spec)
      next
        case False
        then have "D \<longleftrightarrow> pair_sums_13 (vs @ [card_value (last (waste s))])"
          unfolding D_vals slots pair_sums_13_set using set_vs by (simp add: Un_commute)
        then show ?thesis using Inr Some False nK by (simp add: code spec)
      qed
    qed
  qed
qed

lemma fill_rows_shape: "map length (fill_rows ns cards) = ns"
  by (induction ns arbitrary: cards) auto

lemma Pyramid_init_shape: "shape_ok (Pyramid_init cards)"
  by (simp only: shape_ok_def Pyramid_init_def Let_def upt_1_8 fill_rows_shape Pyramid.simps)

subsection \<open>The constructor returns\<close>

lemma deal_many_enough:
  "n \<le> length cards \<Longrightarrow> \<exists>cs rest. deal_many n cards = Inr (cs, rest)"
proof (induction n arbitrary: cards)
  case 0
  then show ?case by simp
next
  case (Suc n)
  then have "cards \<noteq> []" and "n \<le> length (butlast cards)" by auto
  then show ?case using Suc.IH [of "butlast cards"] by (auto simp: deal_def)
qed

lemma GameState_init_returns:
  assumes "length (Deck shuffle entropy seed0) = 52"
  shows "\<exists>s. GameState_init shuffle entropy seed0 max0 = Inr s \<and> length (stock s) = 24"
proof -
  obtain cs rest where d: "deal_many 28 (Deck shuffle entropy seed0) = Inr (cs, rest)"
    using deal_many_enough [of 28 "Deck shuffle entropy seed0"] assms by auto
  then obtain s where s: "GameState_init shuffle entropy seed0 max0 = Inr s"
    by (simp add: GameState_init_def reset_def)
  then show ?thesis using GameState_init_Inr [OF s] assms by auto
qed

section \<open>The claims\<close>

text \<open>
  C1. In every reachable state, a \<open>draw\<close>, \<open>remove_king\<close>, \<open>remove_pair\<close> or \<open>redeal\<close>
  that returns True is undone by the next \<open>undo\<close>: it returns True and gives back the
  state before the command, that is the pyramid, the stock, the waste, \<open>removed_count\<close>
  and \<open>redeals_used\<close> (and the history, the seed and the redeal limit with them).
\<close>

theorem command_then_undo_restores:
  assumes "reachable shuffle s"
  shows "(draw s = (True, s') \<longrightarrow> undo s' = Inr (True, s)) \<and>
         (remove_king s loc = Inr (True, s') \<longrightarrow> undo s' = Inr (True, s)) \<and>
         (remove_pair s locA locB = Inr (True, s') \<longrightarrow> undo s' = Inr (True, s)) \<and>
         (redeal s = (True, s') \<longrightarrow> undo s' = Inr (True, s))"
proof -
  have c: "consistent s" using assms by (rule reachable_consistent)
  then have f: "flags_ok (pyramid s)" by (simp add: consistent_def)
  show ?thesis
    using draw_undo redeal_undo remove_king_undo [OF _ f] remove_pair_undo [OF _ c] by blast
qed

theorem command_then_undo_restores_witness:
  "reachable sample_shuffle game2_drawn \<and>
   (\<exists>s'. draw game2_drawn = (True, s') \<and> undo s' = Inr (True, game2_drawn)) \<and>
   (\<exists>s'. remove_king game2_drawn (''waste'', 0, 0) = Inr (True, s') \<and>
         undo s' = Inr (True, game2_drawn)) \<and>
   (\<exists>s'. remove_pair game2_drawn (''pyramid'', 6, 2) (''pyramid'', 6, 4) = Inr (True, s') \<and>
         undo s' = Inr (True, game2_drawn)) \<and>
   (\<exists>s'. redeal game2_drawn = (True, s') \<and> undo s' = Inr (True, game2_drawn))"
proof -
  let ?g = "game2_drawn"
  have d: "draw ?g = (True, snd (draw ?g))"
    by code_simp
  have k: "remove_king ?g (''waste'', 0, 0) = Inr (True, snd (projr (remove_king ?g (''waste'', 0, 0))))"
    by code_simp
  have p: "remove_pair ?g (''pyramid'', 6, 2) (''pyramid'', 6, 4) =
           Inr (True, snd (projr (remove_pair ?g (''pyramid'', 6, 2) (''pyramid'', 6, 4))))"
    by code_simp
  have r: "redeal ?g = (True, snd (redeal ?g))"
    by code_simp
  show ?thesis
    using game2_drawn_reachable d k p r
      command_then_undo_restores [OF game2_drawn_reachable, where s' = "snd (draw ?g)"]
      command_then_undo_restores [OF game2_drawn_reachable, where loc = "(''waste'', 0, 0)"
        and s' = "snd (projr (remove_king ?g (''waste'', 0, 0)))"]
      command_then_undo_restores [OF game2_drawn_reachable,
        where locA = "(''pyramid'', 6, 2)" and locB = "(''pyramid'', 6, 4)"
        and s' = "snd (projr (remove_pair ?g (''pyramid'', 6, 2) (''pyramid'', 6, 4)))"]
      command_then_undo_restores [OF game2_drawn_reachable, where s' = "snd (redeal ?g)"]
    by blast
qed

text \<open>
  C2. In every reachable state \<open>removed_count\<close> is the number of empty pyramid cells. The
  sum of the occupied cells, the stock, the waste and \<open>removed_count\<close> is 52 only until
  a card leaves through the waste: \<open>removed_count\<close> counts pyramid cards alone, so the
  sum that stays 52 has one more term, the waste cards that the moves of the history
  removed. (The library shuffle is taken to return the 52 cards it was given.)
\<close>

theorem removed_count_and_card_total:
  assumes "reachable shuffle s" and "\<forall>n. length (shuffle n ordered_cards) = 52"
  shows "removed_count s = int (empty_cells (pyramid s)) \<and>
         int (occupied_cells (pyramid s)) + int (length (stock s)) + int (length (waste s))
           + removed_count s + int (waste_removed s) = 52"
proof -
  have a: "accounted s" using assms by (rule reachable_accounted)
  then have "occupied_cells (pyramid s) + empty_cells (pyramid s) = 28"
    using cells_28 by (simp add: accounted_def consistent_def)
  then show ?thesis using a by (simp add: accounted_def consistent_def)
qed

theorem removed_count_and_card_total_witness:
  "reachable sample_shuffle game2_king_gone \<and>
   (\<forall>n. length (sample_shuffle n ordered_cards) = 52) \<and>
   removed_count game2_king_gone = int (empty_cells (pyramid game2_king_gone)) \<and>
   int (occupied_cells (pyramid game2_king_gone)) + int (length (stock game2_king_gone))
     + int (length (waste game2_king_gone)) + removed_count game2_king_gone
     + int (waste_removed game2_king_gone) = 52 \<and>
   waste_removed game2_king_gone = 1"
proof -
  have "waste_removed game2_king_gone = 1"
    by code_simp
  then show ?thesis
    using removed_count_and_card_total [OF game2_king_gone_reachable sample_shuffle_52]
      game2_king_gone_reachable sample_shuffle_52
    by simp
qed

theorem card_total_counterexample:
  "reachable sample_shuffle game2_king_gone \<and>
   int (occupied_cells (pyramid game2_king_gone)) + int (length (stock game2_king_gone))
     + int (length (waste game2_king_gone)) + removed_count game2_king_gone = 51"
proof -
  have "int (occupied_cells (pyramid game2_king_gone)) + int (length (stock game2_king_gone))
     + int (length (waste game2_king_gone)) + removed_count game2_king_gone = 51"
    by code_simp
  then show ?thesis using game2_king_gone_reachable by simp
qed

text \<open>
  C3. A successful \<open>redeal\<close> makes the stock the old stock followed by the old waste
  reversed, empties the waste and adds one to \<open>redeals_used\<close>. The stock is drawn from its
  end, and the end of the reversed waste is the bottom of the old waste: the next \<open>draw\<close>
  moves the oldest card of the old waste, \<open>waste[0]\<close>, onto the waste, not the card
  discarded last.
\<close>

theorem redeal_turns_waste_over:
  assumes "redeal s = (True, s')"
  shows "stock s' = stock s @ rev (waste s) \<and> waste s' = [] \<and>
         redeals_used s' = redeals_used s + 1 \<and>
         waste s \<noteq> [] \<and>
         fst (draw s') \<and> waste (snd (draw s')) = [hd (waste s)]"
proof -
  have r: "waste s \<noteq> []"
    "s' = s\<lparr>stock := stock s @ rev (waste s), waste := [],
             redeals_used := redeals_used s + 1,
             history := history s @ [Redeal (stock s) (waste s)]\<rparr>"
    using redeal_True [OF assms] by simp_all
  have "last (stock s @ rev (waste s)) = hd (waste s)"
    using r(1) by (simp add: last_rev)
  then show ?thesis using r by (simp add: draw_def)
qed

theorem redeal_turns_waste_over_witness:
  "redeal game2_drawn_twice = (True, snd (redeal game2_drawn_twice)) \<and>
   waste game2_drawn_twice = [Card RK SC, Card R8 SS] \<and>
   waste (snd (redeal game2_drawn_twice)) = [] \<and>
   waste (snd (draw (snd (redeal game2_drawn_twice)))) = [Card RK SC]"
proof -
  let ?g = "game2_drawn_twice"
  have r: "redeal ?g = (True, snd (redeal ?g))"
    by code_simp
  have w: "waste ?g = [Card RK SC, Card R8 SS]"
    by code_simp
  show ?thesis
    using redeal_turns_waste_over [OF r] r w by simp
qed

theorem redeal_next_draw_counterexample:
  "reachable sample_shuffle game2_drawn_twice \<and>
   last (waste game2_drawn_twice) = Card R8 SS \<and>
   fst (redeal game2_drawn_twice) \<and>
   fst (draw (snd (redeal game2_drawn_twice))) \<and>
   last (waste (snd (draw (snd (redeal game2_drawn_twice))))) = Card RK SC \<and>
   last (waste (snd (draw (snd (redeal game2_drawn_twice))))) \<noteq> last (waste game2_drawn_twice)"
proof -
  have "last (waste game2_drawn_twice) = Card R8 SS \<and>
   fst (redeal game2_drawn_twice) \<and>
   fst (draw (snd (redeal game2_drawn_twice))) \<and>
   last (waste (snd (draw (snd (redeal game2_drawn_twice))))) = Card RK SC \<and>
   last (waste (snd (draw (snd (redeal game2_drawn_twice))))) \<noteq> last (waste game2_drawn_twice)"
    by code_simp
  then show ?thesis using game2_drawn_twice_reachable by simp
qed

text \<open>
  C4. \<open>remove_king\<close> on a waste location does not look at the index: with the King of
  clubs alone on the waste (its top is index 0) the location \<open>("waste", 5, 0)\<close> removes
  it and returns True, where \<open>get_card\<close> and \<open>card_exposed\<close> refuse the same location.
\<close>

theorem remove_king_ignores_waste_index:
  "waste game2_drawn = [Card RK SC] \<and>
   get_card game2_drawn (''waste'', 5, 0) = Inr None \<and>
   card_exposed game2_drawn (''waste'', 5, 0) = Inr False \<and>
   remove_king game2_drawn (''waste'', 5, 0) = Inr (True, game2_king_gone)"
  by code_simp

text \<open>
  C5. Whenever \<open>draw\<close>, \<open>remove_king\<close>, \<open>remove_pair\<close>, \<open>redeal\<close> or \<open>undo\<close> returns False,
  the whole state (pyramid, stock, waste, \<open>removed_count\<close>, \<open>redeals_used\<close>, history) is
  the state before the call. This holds in every state, reachable or not. In
  \<open>remove_pair\<close> the checks come before any removal, and once they have passed the loop
  removes two cards, so the roll-back that would return False is never run: a
  \<open>remove_pair\<close> that returns has either changed nothing or recorded a move of two cards.
\<close>

theorem refused_command_changes_nothing:
  "(draw s = (False, s') \<longrightarrow> s' = s) \<and>
   (remove_king s loc = Inr (False, s') \<longrightarrow> s' = s) \<and>
   (remove_pair s locA locB = Inr (False, s') \<longrightarrow> s' = s) \<and>
   (redeal s = (False, s') \<longrightarrow> s' = s) \<and>
   (undo s = Inr (False, s') \<longrightarrow> s' = s) \<and>
   (remove_pair s locA locB = Inr (True, s') \<longrightarrow>
      (\<exists>e1 e2. history s' = history s @ [RemovePair [e1, e2]]))"
  using draw_False remove_king_False remove_pair_False redeal_False undo_False
    remove_pair_records_two
  by blast

theorem refused_command_changes_nothing_witness:
  "fst (draw (game2\<lparr>stock := []\<rparr>)) = False \<and>
   snd (draw (game2\<lparr>stock := []\<rparr>)) = game2\<lparr>stock := []\<rparr> \<and>
   remove_king game2 (''pyramid'', 6, 0) = Inr (False, game2) \<and>
   remove_pair game2 (''pyramid'', 6, 0) (''pyramid'', 6, 1) = Inr (False, game2) \<and>
   redeal game2 = (False, game2) \<and>
   undo game2 = Inr (False, game2) \<and>
   fst (projr (remove_pair game2 (''pyramid'', 6, 2) (''pyramid'', 6, 4))) = True \<and>
   history (snd (projr (remove_pair game2 (''pyramid'', 6, 2) (''pyramid'', 6, 4)))) =
     [RemovePair [(''pyramid'', 6, 2, Card RA SS), (''pyramid'', 6, 4, Card RQ SC)]]"
proof -
  let ?e = "game2\<lparr>stock := []\<rparr>"
  have d: "draw ?e = (False, snd (draw ?e))"
    by code_simp
  have k: "remove_king game2 (''pyramid'', 6, 0) =
           Inr (False, snd (projr (remove_king game2 (''pyramid'', 6, 0))))"
    by code_simp
  have p: "remove_pair game2 (''pyramid'', 6, 0) (''pyramid'', 6, 1) =
           Inr (False, snd (projr (remove_pair game2 (''pyramid'', 6, 0) (''pyramid'', 6, 1))))"
    by code_simp
  have r: "redeal game2 = (False, snd (redeal game2))"
    by code_simp
  have u: "undo game2 = Inr (False, snd (projr (undo game2)))"
    by code_simp
  have q: "fst (projr (remove_pair game2 (''pyramid'', 6, 2) (''pyramid'', 6, 4))) = True \<and>
     history (snd (projr (remove_pair game2 (''pyramid'', 6, 2) (''pyramid'', 6, 4)))) =
       [RemovePair [(''pyramid'', 6, 2, Card RA SS), (''pyramid'', 6, 4, Card RQ SC)]]"
    by code_simp
  have "snd (draw ?e) = ?e"
    using d refused_command_changes_nothing [where s = ?e and s' = "snd (draw ?e)"] by blast
  moreover have "snd (projr (remove_king game2 (''pyramid'', 6, 0))) = game2"
    using k refused_command_changes_nothing [where s = game2 and loc = "(''pyramid'', 6, 0)"
        and s' = "snd (projr (remove_king game2 (''pyramid'', 6, 0)))"] by blast
  moreover have "snd (projr (remove_pair game2 (''pyramid'', 6, 0) (''pyramid'', 6, 1))) = game2"
    using p refused_command_changes_nothing [where s = game2
        and locA = "(''pyramid'', 6, 0)" and locB = "(''pyramid'', 6, 1)"
        and s' = "snd (projr (remove_pair game2 (''pyramid'', 6, 0) (''pyramid'', 6, 1)))"] by blast
  moreover have "snd (redeal game2) = game2"
    using r refused_command_changes_nothing [where s = game2 and s' = "snd (redeal game2)"] by blast
  moreover have "snd (projr (undo game2)) = game2"
    using u refused_command_changes_nothing [where s = game2 and s' = "snd (projr (undo game2))"]
    by blast
  ultimately show ?thesis using d k p r u q by simp
qed

text \<open>
  C6. On a board of that shape \<open>legal_moves_remaining\<close> returns (and never raises) the
  condition of the specification: the stock is not empty, or the waste is not empty and
  a redeal is left, or an exposed pyramid card is a King, or the waste top is a King, or
  two distinct playable cards (exposed pyramid cards and the waste top) sum to 13.
\<close>

theorem legal_moves_remaining_meets_spec:
  assumes "shape_ok (pyramid s)"
  shows "legal_moves_remaining s = Inr (legal_moves_spec s)"
  using assms by (rule legal_moves_remaining_eq)

theorem legal_moves_remaining_meets_spec_witness:
  "shape_ok (pyramid (game2\<lparr>stock := []\<rparr>)) \<and>
   legal_moves_remaining (game2\<lparr>stock := []\<rparr>) = Inr True \<and>
   legal_moves_spec (game2\<lparr>stock := []\<rparr>) \<and>
   shape_ok (pyramid (snd (projr (remove_pair (game2\<lparr>stock := []\<rparr>)
       (''pyramid'', 6, 2) (''pyramid'', 6, 4))))) \<and>
   legal_moves_remaining (snd (projr (remove_pair (game2\<lparr>stock := []\<rparr>)
       (''pyramid'', 6, 2) (''pyramid'', 6, 4)))) = Inr False \<and>
   \<not> legal_moves_spec (snd (projr (remove_pair (game2\<lparr>stock := []\<rparr>)
       (''pyramid'', 6, 2) (''pyramid'', 6, 4))))"
proof -
  let ?a = "game2\<lparr>stock := []\<rparr>"
  let ?b = "snd (projr (remove_pair ?a (''pyramid'', 6, 2) (''pyramid'', 6, 4)))"
  have sa: "shape_ok (pyramid ?a)"
    by code_simp
  have sb: "shape_ok (pyramid ?b)"
    by code_simp
  have la: "legal_moves_remaining ?a = Inr True"
    by code_simp
  have lb: "legal_moves_remaining ?b = Inr False"
    by code_simp
  show ?thesis
    using sa sb la lb legal_moves_remaining_meets_spec [OF sa] legal_moves_remaining_meets_spec [OF sb]
    by simp
qed

text \<open>
  C7. On a board of seven rows of 1 to 7 cells (the shape the constructor builds from any
  cards and every reachable state keeps), for \<open>0 \<le> c \<le> r \<le> 6\<close>, \<open>is_exposed(r, c)\<close>
  returns True iff the cell holds a card and either \<open>r = 6\<close> or both cells below it,
  \<open>(r+1, c)\<close> and \<open>(r+1, c+1)\<close>, are empty.
\<close>

theorem is_exposed_follows_rule:
  assumes "shape_ok p" and "0 \<le> c" and "c \<le> r" and "r \<le> 6"
  shows "is_exposed p r c =
         Inr (rows p ! nat r ! nat c \<noteq> None \<and>
              (r = 6 \<or> (rows p ! nat (r + 1) ! nat c = None \<and>
                         rows p ! nat (r + 1) ! nat (c + 1) = None)))"
proof -
  have "nat (r + 1) = nat r + 1" "nat (c + 1) = nat c + 1" "nat r = 6 \<longleftrightarrow> r = 6"
    using assms by auto
  then show ?thesis
    using is_exposed_in_range [OF assms] by (simp add: exposed_rule_def)
qed

theorem is_exposed_follows_rule_witness:
  "shape_ok (pyramid game2) \<and>
   is_exposed (pyramid game2) 6 2 = Inr True \<and>
   is_exposed (pyramid game2) 5 0 = Inr False \<and>
   rows (pyramid game2) ! 5 ! 0 \<noteq> None \<and> rows (pyramid game2) ! 6 ! 0 \<noteq> None"
proof -
  have s: "shape_ok (pyramid game2)"
    by code_simp
  have a: "(rows (pyramid game2) ! nat 6 ! nat 2 \<noteq> None \<and>
              ((6::int) = 6 \<or> (rows (pyramid game2) ! nat (6 + 1) ! nat 2 = None \<and>
                         rows (pyramid game2) ! nat (6 + 1) ! nat (2 + 1) = None))) = True"
    by code_simp
  have b: "(rows (pyramid game2) ! nat 5 ! nat 0 \<noteq> None \<and>
              ((5::int) = 6 \<or> (rows (pyramid game2) ! nat (5 + 1) ! nat 0 = None \<and>
                         rows (pyramid game2) ! nat (5 + 1) ! nat (0 + 1) = None))) = False"
    by code_simp
  have c: "rows (pyramid game2) ! 5 ! 0 \<noteq> None \<and> rows (pyramid game2) ! 6 ! 0 \<noteq> None"
    by code_simp
  show ?thesis
    using s c is_exposed_follows_rule [OF s, of 2 6] is_exposed_follows_rule [OF s, of 0 5]
    unfolding a b by simp
qed

text \<open>
  C8. Constructing a game twice with the same seed and the same redeal limit gives the
  same result, whatever the operating system's entropy is at the two constructions: the
  same pyramid, the same stock, and a waste that is empty. The construction returns (a
  pyramid of 28 cards and a stock of 24) when the library shuffle gives back 52 cards.
\<close>

theorem same_seed_same_game:
  "GameState_init shuffle entropy1 (Some n) max0 = GameState_init shuffle entropy2 (Some n) max0 \<and>
   (\<forall>s. GameState_init shuffle entropy1 (Some n) max0 = Inr s \<longrightarrow> waste s = []) \<and>
   (length (shuffle n ordered_cards) = 52 \<longrightarrow>
      (\<exists>s. GameState_init shuffle entropy1 (Some n) max0 = Inr s \<and> length (stock s) = 24))"
proof (intro conjI allI impI)
  show "GameState_init shuffle entropy1 (Some n) max0 = GameState_init shuffle entropy2 (Some n) max0"
    by (simp add: GameState_init_def reset_def Deck_def)
  show "waste s = []" if "GameState_init shuffle entropy1 (Some n) max0 = Inr s" for s
    using GameState_init_Inr [OF that] by simp
  show "\<exists>s. GameState_init shuffle entropy1 (Some n) max0 = Inr s \<and> length (stock s) = 24"
    if "length (shuffle n ordered_cards) = 52"
    using that GameState_init_returns [of shuffle entropy1 "Some n" max0] by (simp add: Deck_def)
qed

theorem same_seed_same_game_witness:
  "length (sample_shuffle 2 ordered_cards) = 52 \<and>
   GameState_init sample_shuffle 0 (Some 2) 1 = Inr game2 \<and>
   GameState_init sample_shuffle 7 (Some 2) 1 = Inr game2 \<and>
   waste game2 = [] \<and> length (stock game2) = 24"
proof -
  have l: "length (sample_shuffle 2 ordered_cards) = 52"
    using sample_shuffle_52 by blast
  have a: "GameState_init sample_shuffle 0 (Some 2) 1 = Inr game2"
    by (rule game2_constructed)
  show ?thesis
    using l a same_seed_same_game [of sample_shuffle 0 2 1 7]
    by auto
qed

text \<open>
  C9. \<open>reset\<close> builds \<open>Deck(self.seed)\<close> anew. With a seed, every call deals the same game,
  and calling it twice leaves the state that calling it once leaves. Without one
  (\<open>seed = None\<close>, the default of the command line) each call shuffles from fresh
  entropy, and the second call deals another game.
\<close>

theorem reset_twice_with_seed:
  assumes "seed s = Some n" and "reset shuffle entropy1 s = Inr s1"
  shows "reset shuffle entropy2 s1 = Inr s1"
proof -
  obtain pc rest where d: "deal_many 28 (Deck shuffle entropy1 (seed s)) = Inr (pc, rest)"
    and s1: "s1 = s\<lparr>pyramid := Pyramid_init pc, stock := rest, waste := [],
                     removed_count := 0, redeals_used := 0, history := []\<rparr>"
    using assms(2) by (auto simp: reset_def split: sum.splits)
  have "Deck shuffle entropy2 (seed s1) = Deck shuffle entropy1 (seed s)"
    using assms(1) by (simp add: s1 Deck_def)
  then show ?thesis using d by (simp add: reset_def s1)
qed

theorem reset_twice_with_seed_witness:
  "seed game2_king_gone = Some 2 \<and>
   reset sample_shuffle 0 game2_king_gone = Inr game2 \<and>
   reset sample_shuffle 1 game2 = Inr game2"
proof -
  have a: "seed game2_king_gone = Some 2"
    by code_simp
  have b: "reset sample_shuffle 0 game2_king_gone = Inr game2"
    by code_simp
  show ?thesis using reset_twice_with_seed [OF a b, of 1] a b by simp
qed

theorem reset_without_seed_counterexample:
  "GameState_init sample_shuffle 2 None 1 = Inr (game2\<lparr>seed := None\<rparr>) \<and>
   reset sample_shuffle 2 (game2\<lparr>seed := None\<rparr>) = Inr (game2\<lparr>seed := None\<rparr>) \<and>
   reset sample_shuffle 1 (game2\<lparr>seed := None\<rparr>) \<noteq> Inr (game2\<lparr>seed := None\<rparr>) \<and>
   card_at (pyramid (game2\<lparr>seed := None\<rparr>)) 0 0 = Inr (Some (Card R4 SC)) \<and>
   card_at (pyramid (projr (reset sample_shuffle 1 (game2\<lparr>seed := None\<rparr>)))) 0 0
     = Inr (Some (Card R9 SC))"
  by code_simp

text \<open>
  C10. In every reachable state whose last move is a draw, the waste is not empty and
  its top card is the card the move stores: the assertion of \<open>undo_draw\<close> holds and
  \<open>undo\<close> returns True.
\<close>

theorem undo_draw_assertion_holds:
  assumes "reachable shuffle s" and "history s \<noteq> []" and "last (history s) = Draw c"
  shows "waste s \<noteq> [] \<and> last (waste s) = c \<and> (\<exists>s'. undo s = Inr (True, s'))"
proof -
  obtain n where n: "length (history s) = Suc n"
    using assms(2) by (cases "history s") auto
  have "unwinds consistent (Suc n) s"
    using reachable_unwinds_consistent [OF assms(1)] n by simp
  then obtain s' where u: "undo s = Inr (True, s')"
    by (auto split: sum.splits prod.splits bool.splits)
  then have "waste s \<noteq> [] \<and> last (waste s) = c"
    using assms(2,3)
    by (auto simp: undo_def undo_move_def undo_draw_def split: if_splits sum.splits)
  then show ?thesis using u by blast
qed

theorem undo_draw_assertion_holds_witness:
  "reachable sample_shuffle game2_drawn \<and>
   history game2_drawn = [Draw (Card RK SC)] \<and>
   waste game2_drawn = [Card RK SC] \<and>
   (\<exists>s'. undo game2_drawn = Inr (True, s'))"
proof -
  have h: "history game2_drawn = [Draw (Card RK SC)]"
    by code_simp
  have w: "waste game2_drawn = [Card RK SC]"
    by code_simp
  show ?thesis
    using game2_drawn_reachable
      undo_draw_assertion_holds [OF game2_drawn_reachable, of "Card RK SC"] h w by simp
qed

end
